theory Spec2Isabelle
  imports Main "HOL-Library.Word"
begin

section \<open>Shared-memory audio ring: data model\<close>

text \<open>
  The model follows \<^verbatim>\<open>src/common/SharedMemoryAudioRing.{h,cpp}\<close>.
  \<^item> \<^verbatim>\<open>uint32_t\<close> is \<open>32 word\<close>; \<^verbatim>\<open>size_t\<close> is \<open>64 word\<close> (the LP64 ABI of the
    macOS targets the driver is built for). Arithmetic on both wraps around.
  \<^item> A \<^verbatim>\<open>float\<close> sample is its 32-bit pattern: the transport only ever moves samples
    with \<^verbatim>\<open>memcpy\<close> and clears them with \<^verbatim>\<open>memset\<close>, so equality of patterns is
    bit-identity of samples.
  \<^item> A backing file is seen through the record \<open>region\<close>: the \<open>Header\<close> in its first 24
    bytes and the 32-bit cells that follow. A file shorter than it is read is
    represented by its zero extension, which is what \<^verbatim>\<open>ftruncate\<close> produces when it
    grows a file.
  \<^item> The file system is a map from path to file. A \<^verbatim>\<open>MAP_SHARED\<close> mapping aliases the
    file, so the pointers \<^verbatim>\<open>mapping_\<close> and \<^verbatim>\<open>header_\<close> are modelled by the path of the
    mapped file (\<open>None\<close> is \<^verbatim>\<open>nullptr\<close>) and every access goes through the map.
  \<^item> An operation returns \<open>None\<close> where the C++ would access memory outside the
    \<^verbatim>\<open>mapping_size_\<close> bytes the instance has mapped, outside the mapped file or outside
    the caller's buffer, or divide by zero.
  \<^item> The members \<^verbatim>\<open>shm_fd_\<close>, \<^verbatim>\<open>mapping_\<close>, \<^verbatim>\<open>mapping_size_\<close>, \<^verbatim>\<open>header_\<close> and \<^verbatim>\<open>name_\<close> are
    the fields \<open>this_shm_fd\<close>, \<open>this_mapping\<close>, \<open>this_mapping_size\<close>, \<open>this_header\<close> and
    \<open>this_name\<close>; the accessors \<^verbatim>\<open>channels()\<close> and \<^verbatim>\<open>capacity_frames()\<close> are \<open>channels_of\<close>
    and \<open>capacity_frames_of\<close>, the header's fields keep the names.
\<close>

type_synonym u32 = "32 word"
type_synonym size_t = "64 word"
type_synonym sample = "32 word"

record Header =
  magic :: u32
  version :: u32
  channels :: u32
  capacity_frames :: u32
  write_index :: u32
  read_index :: u32

record region =
  header :: Header
  cells :: "sample list"

type_synonym backing_store = "string \<rightharpoonup> region"

record SharedMemoryAudioRing =
  this_shm_fd :: int
  this_mapping :: "string option"
  this_mapping_size :: size_t
  this_header :: "string option"
  this_name :: string

definition kMagic :: u32 where
  "kMagic = 0x53415242"

definition kVersion :: u32 where
  "kVersion = 1"

definition sizeof_Header :: size_t where
  "sizeof_Header = 24"

definition sizeof_float :: size_t where
  "sizeof_float = 4"

definition MinU32 :: "u32 \<Rightarrow> u32 \<Rightarrow> u32" where
  "MinU32 a b = (if a < b then a else b)"

definition MinSizeT :: "size_t \<Rightarrow> size_t \<Rightarrow> size_t" where
  "MinSizeT a b = (if a < b then a else b)"

text \<open>The constructor: no descriptor, no mapping.\<close>

definition unopened :: SharedMemoryAudioRing where
  "unopened = \<lparr>this_shm_fd = -1, this_mapping = None, this_mapping_size = 0, this_header = None, this_name = []\<rparr>"

definition MappingSize :: "u32 \<Rightarrow> u32 \<Rightarrow> size_t" where
  "MappingSize chs cap = sizeof_Header + sizeof_float * ucast chs * ucast cap"


section \<open>Ring transport\<close>

text \<open>
  \<^verbatim>\<open>std::memcpy(&dst[d], &src[s], sizeof(float) * n)\<close> on two buffers of samples:
  \<open>n\<close> samples of \<open>src\<close> from \<open>s\<close> on replace those of \<open>dst\<close> from \<open>d\<close> on. The byte
  count \<^verbatim>\<open>sizeof(float) * channels\<close> is below \<open>2 ^ 34\<close> and does not wrap in
  \<^verbatim>\<open>size_t\<close>; it is \<open>n\<close> samples. A range that leaves either buffer is an access out
  of bounds.
\<close>

definition memcpy :: "sample list \<Rightarrow> nat \<Rightarrow> sample list \<Rightarrow> nat \<Rightarrow> nat \<Rightarrow> sample list option" where
  "memcpy dst d src s n =
     (if d + n \<le> length dst \<and> s + n \<le> length src
      then Some (take d dst @ take n (drop s src) @ drop (d + n) dst)
      else None)"

text \<open>
  The copy loop of \<^verbatim>\<open>Write\<close> (lines 145-150): \<open>frame\<close> is the loop counter, \<open>data\<close> the
  frame buffer as the iterations so far have left it. \<open>wr + frame\<close> is a
  \<^verbatim>\<open>uint32_t\<close> sum and wraps; the two indices are \<^verbatim>\<open>size_t\<close> products.
\<close>

function Write_loop ::
  "u32 \<Rightarrow> u32 \<Rightarrow> u32 \<Rightarrow> u32 \<Rightarrow> sample list \<Rightarrow> u32 \<Rightarrow> sample list \<Rightarrow> sample list option" where
  "Write_loop chs cap wr to_write src frame data =
     (if frame < to_write then
        (if cap = 0 then None
         else
           let dst_frame = (wr + frame) mod cap;
               src_idx = (ucast frame :: size_t) * ucast chs;
               dst_idx = (ucast dst_frame :: size_t) * ucast chs
           in case memcpy data (unat dst_idx) src (unat src_idx) (unat chs) of
                None \<Rightarrow> None
              | Some data' \<Rightarrow> Write_loop chs cap wr to_write src (frame + 1) data')
      else Some data)"
  by pat_completeness auto
termination
proof (relation "measure (\<lambda>(chs, cap, wr, to_write, src, frame, data). unat to_write - unat frame)",
    goal_cases)
  case 1
  show ?case by simp
next
  case (2 chs cap wr to_write src frame data dst_frame src_idx dst_idx data')
  have below: "unat frame < unat to_write"
    using 2(1) by (simp add: word_less_nat_alt)
  moreover have "unat to_write < 2 ^ 32"
    using unsigned_less [of to_write] by simp
  ultimately have "unat (frame + 1) = unat frame + 1"
    by (simp add: unat_word_ariths)
  with below show ?case
    by simp
qed

text \<open>The copy loop of \<^verbatim>\<open>Read\<close> (lines 172-177); \<open>buf\<close> is the caller's buffer.\<close>

function Read_loop ::
  "u32 \<Rightarrow> u32 \<Rightarrow> u32 \<Rightarrow> u32 \<Rightarrow> sample list \<Rightarrow> u32 \<Rightarrow> sample list \<Rightarrow> sample list option" where
  "Read_loop chs cap rd to_read data frame buf =
     (if frame < to_read then
        (if cap = 0 then None
         else
           let src_frame = (rd + frame) mod cap;
               src_idx = (ucast src_frame :: size_t) * ucast chs;
               dst_idx = (ucast frame :: size_t) * ucast chs
           in case memcpy buf (unat dst_idx) data (unat src_idx) (unat chs) of
                None \<Rightarrow> None
              | Some buf' \<Rightarrow> Read_loop chs cap rd to_read data (frame + 1) buf')
      else Some buf)"
  by pat_completeness auto
termination
proof (relation "measure (\<lambda>(chs, cap, rd, to_read, data, frame, buf). unat to_read - unat frame)",
    goal_cases)
  case 1
  show ?case by simp
next
  case (2 chs cap rd to_read data frame buf src_frame src_idx dst_idx buf')
  have below: "unat frame < unat to_read"
    using 2(1) by (simp add: word_less_nat_alt)
  moreover have "unat to_read < 2 ^ 32"
    using unsigned_less [of to_read] by simp
  ultimately have "unat (frame + 1) = unat frame + 1"
    by (simp add: unat_word_ariths)
  with below show ?case
    by simp
qed

text \<open>\<^verbatim>\<open>DataStart\<close>: the cells that follow the header of the file mapped at \<^verbatim>\<open>mapping_\<close>.\<close>

definition DataStart :: "SharedMemoryAudioRing \<Rightarrow> string option" where
  "DataStart r = this_mapping r"

text \<open>
  The mapping of an instance has \<^verbatim>\<open>mapping_size_\<close> bytes, whatever the size of the file has
  become since: after the header it covers \<open>cell_count mapping_size_\<close> cells, and of a
  file with fewer cells all there are. \<open>mapped_cells\<close> are the cells the instance can
  reach through \<^verbatim>\<open>DataStart\<close>; the copies of \<^verbatim>\<open>Write\<close> and \<^verbatim>\<open>Read\<close> run on them, so that a
  copy that leaves the instance's own mapping, or the file, has no result.
\<close>

definition cell_count :: "size_t \<Rightarrow> nat" where
  "cell_count len = (unat len - unat sizeof_Header) div unat sizeof_float"

definition mapped_cells :: "SharedMemoryAudioRing \<Rightarrow> region \<Rightarrow> sample list" where
  "mapped_cells r m = take (cell_count (this_mapping_size r)) (cells m)"

text \<open>
  \<^verbatim>\<open>Write(interleaved_frames, frame_count)\<close>: the result is the returned count and the
  file system after the call. A null \<^verbatim>\<open>interleaved_frames\<close> is \<open>None\<close>. The frames are
  copied into the cells the instance maps; the cells of the file beyond its mapping
  stay as they are.
\<close>

definition Write ::
  "SharedMemoryAudioRing \<Rightarrow> backing_store \<Rightarrow> sample list option \<Rightarrow> size_t
     \<Rightarrow> (size_t \<times> backing_store) option" where
  "Write r fs interleaved_frames frame_count =
     (case this_header r of
        None \<Rightarrow> Some (0, fs)
      | Some hp \<Rightarrow>
         (case interleaved_frames of
            None \<Rightarrow> Some (0, fs)
          | Some src \<Rightarrow>
             if frame_count = 0 then Some (0, fs)
             else
               (case fs hp of
                  None \<Rightarrow> None
                | Some hm \<Rightarrow>
                   let chs = channels (header hm);
                       cap = capacity_frames (header hm);
                       wr = write_index (header hm);
                       rd = read_index (header hm);
                       used = wr - rd;
                       free_frames = cap - MinU32 used cap;
                       to_write = (ucast (MinSizeT frame_count (ucast free_frames)) :: u32)
                   in if to_write = 0 then Some (0, fs)
                      else
                        (case DataStart r of
                           None \<Rightarrow> None
                         | Some dp \<Rightarrow>
                            (case fs dp of
                               None \<Rightarrow> None
                             | Some dm \<Rightarrow>
                                (case Write_loop chs cap wr to_write src 0 (mapped_cells r dm) of
                                   None \<Rightarrow> None
                                 | Some data' \<Rightarrow>
                                    let fs' = fs(dp \<mapsto> dm\<lparr>cells := data' @
                                                drop (cell_count (this_mapping_size r)) (cells dm)\<rparr>)
                                    in (case fs' hp of
                                          None \<Rightarrow> None
                                        | Some hm' \<Rightarrow>
                                           Some (ucast to_write,
                                                 fs'(hp \<mapsto> hm'\<lparr>header :=
                                                   (header hm')\<lparr>write_index := wr + to_write\<rparr>\<rparr>)))))))))"

text \<open>
  \<^verbatim>\<open>Read(interleaved_frames, frame_count)\<close>: the result is the returned count, the caller's
  buffer after the call and the file system after the call.
\<close>

definition Read ::
  "SharedMemoryAudioRing \<Rightarrow> backing_store \<Rightarrow> sample list option \<Rightarrow> size_t
     \<Rightarrow> (size_t \<times> sample list option \<times> backing_store) option" where
  "Read r fs interleaved_frames frame_count =
     (case this_header r of
        None \<Rightarrow> Some (0, interleaved_frames, fs)
      | Some hp \<Rightarrow>
         (case interleaved_frames of
            None \<Rightarrow> Some (0, None, fs)
          | Some buf \<Rightarrow>
             if frame_count = 0 then Some (0, Some buf, fs)
             else
               (case fs hp of
                  None \<Rightarrow> None
                | Some hm \<Rightarrow>
                   let chs = channels (header hm);
                       cap = capacity_frames (header hm);
                       wr = write_index (header hm);
                       rd = read_index (header hm);
                       available = MinU32 (wr - rd) cap;
                       to_read = (ucast (MinSizeT frame_count (ucast available)) :: u32)
                   in if to_read = 0 then Some (0, Some buf, fs)
                      else
                        (case DataStart r of
                           None \<Rightarrow> None
                         | Some dp \<Rightarrow>
                            (case fs dp of
                               None \<Rightarrow> None
                             | Some dm \<Rightarrow>
                                (case Read_loop chs cap rd to_read (mapped_cells r dm) 0 buf of
                                   None \<Rightarrow> None
                                 | Some buf' \<Rightarrow>
                                    Some (ucast to_read, Some buf',
                                          fs(hp \<mapsto> hm\<lparr>header :=
                                            (header hm)\<lparr>read_index := rd + to_read\<rparr>\<rparr>))))))))"

text \<open>The accessors \<^verbatim>\<open>channels()\<close>, \<^verbatim>\<open>capacity_frames()\<close> and \<^verbatim>\<open>is_open()\<close>.\<close>

definition channels_of :: "SharedMemoryAudioRing \<Rightarrow> backing_store \<Rightarrow> u32 option" where
  "channels_of r fs =
     (case this_header r of
        None \<Rightarrow> Some 0
      | Some hp \<Rightarrow> map_option (\<lambda>m. channels (header m)) (fs hp))"

definition capacity_frames_of :: "SharedMemoryAudioRing \<Rightarrow> backing_store \<Rightarrow> u32 option" where
  "capacity_frames_of r fs =
     (case this_header r of
        None \<Rightarrow> Some 0
      | Some hp \<Rightarrow> map_option (\<lambda>m. capacity_frames (header m)) (fs hp))"

definition is_open :: "SharedMemoryAudioRing \<Rightarrow> bool" where
  "is_open r = (this_header r \<noteq> None)"


section \<open>Segment manager\<close>

text \<open>
  What the kernel answers to the system calls of one \<^verbatim>\<open>Open\<close>: the value \<^verbatim>\<open>open\<close> returns
  when the file can be opened (a descriptor, or a negative value for a failure such as
  \<^verbatim>\<open>EACCES\<close>), and whether \<^verbatim>\<open>ftruncate\<close> and \<^verbatim>\<open>mmap\<close> succeed. The descriptor table and the
  address space are not part of the model: \<^verbatim>\<open>close\<close>, \<^verbatim>\<open>munmap\<close> and \<^verbatim>\<open>fchmod\<close> leave
  every file's content as it is.
\<close>

record syscalls =
  open_result :: int
  ftruncate_ok :: bool
  mmap_ok :: bool

definition zero_Header :: Header where
  "zero_Header = \<lparr>magic = 0, version = 0, channels = 0, capacity_frames = 0,
                   write_index = 0, read_index = 0\<rparr>"

definition empty_file :: region where
  "empty_file = \<lparr>header = zero_Header, cells = []\<rparr>"

text \<open>
  \<^verbatim>\<open>open(path, create ? (O_CREAT | O_RDWR) : O_RDWR, 0666)\<close>: without \<^verbatim>\<open>O_CREAT\<close> a missing
  file is an error; with it a missing file is created empty. There is no \<^verbatim>\<open>O_TRUNC\<close>.
\<close>

definition sys_open :: "syscalls \<Rightarrow> backing_store \<Rightarrow> string \<Rightarrow> bool \<Rightarrow> int \<times> backing_store" where
  "sys_open k fs path create =
     (if open_result k < 0 then (-1, fs)
      else
        (case fs path of
           Some f \<Rightarrow> (open_result k, fs)
         | None \<Rightarrow> if create then (open_result k, fs(path \<mapsto> empty_file)) else (-1, fs)))"

text \<open>
  \<^verbatim>\<open>ftruncate(fd, static_cast<off_t>(len))\<close> on the file opened at \<open>path\<close>: \<^verbatim>\<open>off_t\<close> is a
  signed 64-bit integer and a negative length is \<^verbatim>\<open>EINVAL\<close>. On success the file has
  \<open>len\<close> bytes: the cells beyond are cut off, missing cells read as zero. The result
  is the return value (\<open>0\<close> or \<open>-1\<close>) and the file system. The length \<^verbatim>\<open>Open\<close> passes is
  \<^verbatim>\<open>MappingSize\<close>, the header and a whole number of cells; \<open>cell_count\<close> is that number.
\<close>

definition resize_cells :: "nat \<Rightarrow> sample list \<Rightarrow> sample list" where
  "resize_cells n xs = take n xs @ replicate (n - length xs) 0"

definition sys_ftruncate :: "syscalls \<Rightarrow> backing_store \<Rightarrow> string \<Rightarrow> size_t \<Rightarrow> int \<times> backing_store" where
  "sys_ftruncate k fs path len =
     (if \<not> ftruncate_ok k \<or> sint len < 0 then (-1, fs)
      else
        (case fs path of
           None \<Rightarrow> (-1, fs)
         | Some f \<Rightarrow> (0, fs(path \<mapsto> f\<lparr>cells := resize_cells (cell_count len) (cells f)\<rparr>))))"

text \<open>
  \<^verbatim>\<open>std::memset(mapping_, 0, mapping_size_)\<close> on a mapped file, for a length that covers
  the header: the header and the first \<open>cell_count len\<close> cells become zero. Clearing
  more bytes than the file has is an access out of bounds.
\<close>

definition memset_zero :: "region \<Rightarrow> size_t \<Rightarrow> region option" where
  "memset_zero m len =
     (if sizeof_Header \<le> len \<and> cell_count len \<le> length (cells m)
      then Some \<lparr>header = zero_Header,
                 cells = replicate (cell_count len) 0 @ drop (cell_count len) (cells m)\<rparr>
      else None)"

text \<open>\<^verbatim>\<open>Close\<close> (lines 114-126).\<close>

definition Close :: "SharedMemoryAudioRing \<Rightarrow> SharedMemoryAudioRing" where
  "Close r =
     (let r1 = (if this_mapping r \<noteq> None then r\<lparr>this_mapping := None\<rparr> else r);
          r2 = (if 0 \<le> this_shm_fd r1 then r1\<lparr>this_shm_fd := -1\<rparr> else r1)
      in r2\<lparr>this_mapping_size := 0, this_header := None, this_name := []\<rparr>)"

text \<open>\<^verbatim>\<open>InitializeIfNeeded\<close> (lines 41-63): the result is the return value and the file system.\<close>

definition InitializeIfNeeded ::
  "SharedMemoryAudioRing \<Rightarrow> backing_store \<Rightarrow> bool \<Rightarrow> u32 \<Rightarrow> u32 \<Rightarrow> (bool \<times> backing_store) option" where
  "InitializeIfNeeded r fs create chs cap =
     (case this_header r of
        None \<Rightarrow> Some (False, fs)
      | Some hp \<Rightarrow>
         (case fs hp of
            None \<Rightarrow> None
          | Some hm \<Rightarrow>
             if create \<or>
                magic (header hm) \<noteq> kMagic \<or>
                version (header hm) \<noteq> kVersion \<or>
                channels (header hm) \<noteq> chs \<or>
                capacity_frames (header hm) \<noteq> cap
             then
               (case this_mapping r of
                  None \<Rightarrow> None
                | Some mp \<Rightarrow>
                   (case fs mp of
                      None \<Rightarrow> None
                    | Some mm \<Rightarrow>
                       (case memset_zero mm (this_mapping_size r) of
                          None \<Rightarrow> None
                        | Some mm' \<Rightarrow>
                           let fs' = fs(mp \<mapsto> mm')
                           in (case fs' hp of
                                 None \<Rightarrow> None
                               | Some hm' \<Rightarrow>
                                  Some (True,
                                        fs'(hp \<mapsto> hm'\<lparr>header :=
                                          (header hm')\<lparr>magic := kMagic, version := kVersion,
                                            channels := chs, capacity_frames := cap,
                                            write_index := 0, read_index := 0\<rparr>\<rparr>))))))
             else Some (True, fs)))"

text \<open>\<^verbatim>\<open>std::replace(first, last, old, new)\<close> on a string.\<close>

fun std_replace :: "string \<Rightarrow> char \<Rightarrow> char \<Rightarrow> string" where
  "std_replace [] old new = []"
| "std_replace (c # cs) old new = (if c = old then new else c) # std_replace cs old new"

text \<open>The path \<^verbatim>\<open>backing_file\<close> that \<^verbatim>\<open>Open\<close> derives from the logical name (lines 75-80).\<close>

definition backing_file :: "string \<Rightarrow> string" where
  "backing_file name =
     (let path_name = name;
          path_name = (if path_name \<noteq> [] \<and> path_name ! 0 = CHR ''/''
                       then drop 1 path_name else path_name);
          path_name = std_replace path_name (CHR ''/'') (CHR ''_'')
      in ''/tmp/'' @ path_name @ ''.ring'')"

text \<open>
  \<^verbatim>\<open>Open\<close> (lines 65-112): the result is the return value, the instance and the file system
  after the call. The header is read and written through the mapping: where
  \<^verbatim>\<open>MappingSize\<close> has wrapped to fewer bytes than \<^verbatim>\<open>sizeof(Header)\<close>, the call has no
  result in the model.
\<close>

definition Open ::
  "syscalls \<Rightarrow> SharedMemoryAudioRing \<Rightarrow> backing_store \<Rightarrow> string \<Rightarrow> bool \<Rightarrow> u32 \<Rightarrow> u32
     \<Rightarrow> (bool \<times> SharedMemoryAudioRing \<times> backing_store) option" where
  "Open k r0 fs name create chs cap =
     (let r = Close r0
      in if name = [] \<or> chs = 0 \<or> cap = 0 then Some (False, r, fs)
         else
           let (fd, fs1) = sys_open k fs (backing_file name) create;
               r1 = r\<lparr>this_shm_fd := fd\<rparr>
           in if fd < 0 then Some (False, r1, fs1)
              else
                let r2 = r1\<lparr>this_mapping_size := MappingSize chs cap\<rparr>
                in if this_mapping_size r2 < sizeof_Header then None
                   else
                     let (rc, fs2) =
                           sys_ftruncate k fs1 (backing_file name) (this_mapping_size r2)
                     in if rc \<noteq> 0 then Some (False, Close r2, fs2)
                        else if \<not> mmap_ok k
                        then Some (False, Close (r2\<lparr>this_mapping := None\<rparr>), fs2)
                        else
                          let r3 = r2\<lparr>this_mapping := Some (backing_file name)\<rparr>;
                              r4 = r3\<lparr>this_header := this_mapping r3\<rparr>
                          in (case InitializeIfNeeded r4 fs2 create chs cap of
                                None \<Rightarrow> None
                              | Some (ok, fs3) \<Rightarrow>
                                 if \<not> ok then Some (False, Close r4, fs3)
                                 else Some (True, r4\<lparr>this_name := backing_file name\<rparr>, fs3)))"


section \<open>The backing path as the specification words it\<close>

text \<open>
  The specification's sentence, word for word: strip a single leading separator from
  the logical name, replace every remaining separator with an underscore, append the
  fixed suffix and store the result in the fixed directory \<open>dir\<close>.
\<close>

definition spec_backing_path :: "string \<Rightarrow> string \<Rightarrow> string" where
  "spec_backing_path dir name =
     (let stripped = (case name of [] \<Rightarrow> [] | c # rest \<Rightarrow> if c = CHR ''/'' then rest else name);
          replaced = map (\<lambda>c. if c = CHR ''/'' then CHR ''_'' else c) stripped
      in dir @ ''/'' @ replaced @ ''.ring'')"

section \<open>Vocabulary of the claims\<close>

text \<open>
  An instance is open on a mapped file when both of its pointers are the file's path
  and the file is there. The frame buffer fits when it holds exactly
  \<open>capacity_frames * channels\<close> samples, as the data model of the ring says. The
  mapping of the instance covers the frame buffer when its own \<^verbatim>\<open>mapping_size_\<close> bytes
  reach the last cell of the file: \<^verbatim>\<open>Open\<close> leaves it so, and it stays so until another
  \<^verbatim>\<open>Open\<close> of the same file grows the file under the instance.
  \<open>write_count\<close> and \<open>read_count\<close> are the values \<^verbatim>\<open>to_write\<close> and \<^verbatim>\<open>to_read\<close> that
  \<^verbatim>\<open>Write\<close> and \<^verbatim>\<open>Read\<close> compute from the header and the requested count.
\<close>

definition mapped_at :: "SharedMemoryAudioRing \<Rightarrow> backing_store \<Rightarrow> string \<Rightarrow> region \<Rightarrow> bool" where
  "mapped_at r fs p m = (this_header r = Some p \<and> this_mapping r = Some p \<and> fs p = Some m)"

definition buffer_fits :: "region \<Rightarrow> bool" where
  "buffer_fits m =
     (length (cells m) = unat (capacity_frames (header m)) * unat (channels (header m)))"

definition mapping_covers :: "SharedMemoryAudioRing \<Rightarrow> region \<Rightarrow> bool" where
  "mapping_covers r m = (length (cells m) \<le> cell_count (this_mapping_size r))"

definition write_count :: "Header \<Rightarrow> size_t \<Rightarrow> u32" where
  "write_count h frame_count =
     ucast (MinSizeT frame_count
       (ucast (capacity_frames h - MinU32 (write_index h - read_index h) (capacity_frames h))))"

definition read_count :: "Header \<Rightarrow> size_t \<Rightarrow> u32" where
  "read_count h frame_count =
     ucast (MinSizeT frame_count
       (ucast (MinU32 (write_index h - read_index h) (capacity_frames h))))"


text \<open>
  \<open>stamped\<close> is the header \<^verbatim>\<open>InitializeIfNeeded\<close> writes when it resets the ring;
  \<open>header_matches\<close> holds when none of its four tests on the stored header fires;
  \<open>opened\<close> is the instance a successful \<^verbatim>\<open>Open\<close> leaves.
\<close>

definition stamped :: "u32 \<Rightarrow> u32 \<Rightarrow> Header" where
  "stamped chs cap = \<lparr>magic = kMagic, version = kVersion, channels = chs, capacity_frames = cap,
                       write_index = 0, read_index = 0\<rparr>"

definition header_matches :: "Header \<Rightarrow> u32 \<Rightarrow> u32 \<Rightarrow> bool" where
  "header_matches h chs cap =
     (magic h = kMagic \<and> version h = kVersion \<and> channels h = chs \<and> capacity_frames h = cap)"

definition opened :: "syscalls \<Rightarrow> string \<Rightarrow> u32 \<Rightarrow> u32 \<Rightarrow> SharedMemoryAudioRing" where
  "opened k name chs cap =
     \<lparr>this_shm_fd = open_result k, this_mapping = Some (backing_file name),
      this_mapping_size = MappingSize chs cap, this_header = Some (backing_file name),
      this_name = backing_file name\<rparr>"


text \<open>
  A sequence of calls on one open instance. \<open>run_calls\<close> gives the file system after each
  call, in order, and stops at the first call that has no result. A call fits when its
  buffer is null or holds at least \<open>frame_count\<close> frames of the ring's channel count.
\<close>

datatype call = WriteCall "sample list option" size_t | ReadCall "sample list option" size_t

fun run_calls :: "SharedMemoryAudioRing \<Rightarrow> backing_store \<Rightarrow> call list \<Rightarrow> backing_store list" where
  "run_calls r fs [] = []"
| "run_calls r fs (WriteCall frames n # cs) =
     (case Write r fs frames n of
        None \<Rightarrow> []
      | Some (k, fs') \<Rightarrow> fs' # run_calls r fs' cs)"
| "run_calls r fs (ReadCall frames n # cs) =
     (case Read r fs frames n of
        None \<Rightarrow> []
      | Some (k, frames', fs') \<Rightarrow> fs' # run_calls r fs' cs)"

fun call_fits :: "u32 \<Rightarrow> call \<Rightarrow> bool" where
  "call_fits chs (WriteCall frames n) =
     (case frames of None \<Rightarrow> True | Some xs \<Rightarrow> unat n * unat chs \<le> length xs)"
| "call_fits chs (ReadCall frames n) =
     (case frames of None \<Rightarrow> True | Some xs \<Rightarrow> unat n * unat chs \<le> length xs)"

definition used_within_capacity :: "Header \<Rightarrow> bool" where
  "used_within_capacity h = (write_index h - read_index h \<le> capacity_frames h)"


section \<open>Concrete states used as examples\<close>

definition kernel_ok :: syscalls where
  "kernel_ok = \<lparr>open_result = 3, ftruncate_ok = True, mmap_ok = True\<rparr>"

text \<open>
  An instance open on \<^verbatim>\<open>/tmp/r.ring\<close>, a ring of two channels and three frames that holds
  one frame, and an empty ring of the same shape.
\<close>

definition ring_ex :: SharedMemoryAudioRing where
  "ring_ex = \<lparr>this_shm_fd = 3, this_mapping = Some ''/tmp/r.ring'', this_mapping_size = 48,
              this_header = Some ''/tmp/r.ring'', this_name = ''/tmp/r.ring''\<rparr>"

definition region_ex :: region where
  "region_ex = \<lparr>header = \<lparr>magic = kMagic, version = kVersion, channels = 2, capacity_frames = 3,
                           write_index = 5, read_index = 4\<rparr>,
                cells = [0, 0, 10, 11, 0, 0]\<rparr>"

definition region_empty_ex :: region where
  "region_empty_ex = \<lparr>header = \<lparr>magic = kMagic, version = kVersion, channels = 2,
                                 capacity_frames = 3, write_index = 7, read_index = 7\<rparr>,
                      cells = [0, 0, 0, 0, 0, 0]\<rparr>"


text \<open>A freshly reset ring of the same shape and a sequence of calls on it.\<close>

definition region_fresh_ex :: region where
  "region_fresh_ex = \<lparr>header = \<lparr>magic = kMagic, version = kVersion, channels = 2,
                                 capacity_frames = 3, write_index = 0, read_index = 0\<rparr>,
                      cells = [0, 0, 0, 0, 0, 0]\<rparr>"

definition calls_ex :: "call list" where
  "calls_ex = [WriteCall (Some [1, 2, 3, 4]) 2, ReadCall (Some [9, 9]) 1,
               WriteCall (Some [5, 6, 7, 8, 9, 10, 11, 12]) 4, ReadCall None 7]"


text \<open>An empty ring of the same shape whose two indices are \<^verbatim>\<open>UINT32_MAX\<close>.\<close>

definition region_wrap_ex :: region where
  "region_wrap_ex = \<lparr>header = \<lparr>magic = kMagic, version = kVersion, channels = 2,
                                capacity_frames = 3, write_index = 0xFFFFFFFF,
                                read_index = 0xFFFFFFFF\<rparr>,
                     cells = [0, 0, 0, 0, 0, 0]\<rparr>"


text \<open>
  The file as another \<^verbatim>\<open>Open\<close> with capacity 4 has regrown it under the instance above,
  whose own mapping still has 48 bytes: eight cells, of which the instance maps six. One
  frame is buffered, in slot 3.
\<close>

definition region_regrown_ex :: region where
  "region_regrown_ex = \<lparr>header = \<lparr>magic = kMagic, version = kVersion, channels = 2,
                                   capacity_frames = 4, write_index = 4, read_index = 3\<rparr>,
                        cells = [0, 0, 0, 0, 0, 0, 7, 8]\<rparr>"

section \<open>Evaluation rules\<close>

lemmas segment_defs =
  Open_def Close_def unopened_def backing_file_def sys_open_def sys_ftruncate_def
  MappingSize_def sizeof_Header_def sizeof_float_def InitializeIfNeeded_def memset_zero_def
  cell_count_def resize_cells_def empty_file_def zero_Header_def kMagic_def kVersion_def
  kernel_ok_def

lemmas transport_defs =
  Write_def Read_def DataStart_def MinU32_def MinSizeT_def memcpy_def Let_def
  Write_loop.simps Read_loop.simps mapped_cells_def cell_count_def sizeof_Header_def
  sizeof_float_def

lemmas covers_defs =
  mapping_covers_def ring_ex_def cell_count_def sizeof_Header_def sizeof_float_def

lemmas example_defs = ring_ex_def region_ex_def region_empty_ex_def region_fresh_ex_def

section \<open>Machine arithmetic\<close>

declare Write_loop.simps [simp del]
declare Read_loop.simps [simp del]

lemma unat_word_succ:
  fixes frame :: "'a::len word"
  assumes "frame < bound"
  shows "unat (frame + 1) = Suc (unat frame)"
proof -
  have "unat frame < unat bound"
    using assms by (simp add: word_less_nat_alt)
  moreover have "unat bound < 2 ^ LENGTH('a)"
    by (rule unsigned_less)
  ultimately have "Suc (unat frame) < 2 ^ LENGTH('a)"
    by linarith
  then have "unat frame + unat (1 :: 'a word) < 2 ^ LENGTH('a)"
    by simp
  then have "unat (frame + 1) = unat frame + unat (1 :: 'a word)"
    by (simp only: unat_add_lem)
  then show ?thesis
    by simp
qed

lemma unat_u32_bound: "unat (a :: u32) < 4294967296"
  using unsigned_less [of a] by simp

lemma unat_ucast_u32: "unat (ucast (a :: u32) :: size_t) = unat a"
  using unat_u32_bound [of a] by (simp add: unsigned_ucast_eq take_bit_nat_eq_self)

lemma unat_idx:
  "unat ((ucast (a :: u32) :: size_t) * ucast (b :: u32)) = unat a * unat b"
proof -
  have "unat a * unat b < 4294967296 * 4294967296"
    using unat_u32_bound [of a] unat_u32_bound [of b]
    by (intro mult_strict_mono) simp_all
  then have "unat (ucast a :: size_t) * unat (ucast b :: size_t) < 2 ^ LENGTH(64)"
    by (simp add: unat_ucast_u32)
  then have "unat ((ucast a :: size_t) * ucast b) = unat (ucast a :: size_t) * unat (ucast b :: size_t)"
    by (simp only: unat_mult_lem)
  then show ?thesis
    by (simp add: unat_ucast_u32)
qed

lemma unat_slot:
  assumes "cap \<noteq> (0 :: u32)"
  shows "unat (x mod cap) < unat cap"
  using assms by (simp add: unat_mod unat_gt_0)

lemma MinU32_unat: "unat (MinU32 a b) = min (unat a) (unat b)"
  by (simp add: MinU32_def word_less_nat_alt min_def)

lemma MinSizeT_unat: "unat (MinSizeT a b) = min (unat a) (unat b)"
  by (simp add: MinSizeT_def word_less_nat_alt min_def)

lemma unat_clamp:
  "unat (ucast (MinSizeT n (ucast (f :: u32))) :: u32) = min (unat n) (unat f)"
proof -
  have "unat (MinSizeT n (ucast f)) = min (unat n) (unat f)"
    by (simp add: MinSizeT_unat unat_ucast_u32)
  moreover have "min (unat n) (unat f) < 2 ^ 32"
    using unat_u32_bound [of f] by simp
  ultimately show ?thesis
    by (simp add: unsigned_ucast_eq take_bit_nat_eq_self)
qed

lemma unat_free:
  "unat (cap - MinU32 used cap) = unat cap - min (unat used) (unat cap)"
proof -
  have "MinU32 used cap \<le> cap"
    by (simp add: word_le_nat_alt MinU32_unat)
  then show ?thesis
    by (simp add: unat_sub MinU32_unat)
qed

lemma word_le_succ:
  fixes frame i bound :: "'a::len word"
  assumes "frame < bound" and "frame \<le> i" and "i \<noteq> frame"
  shows "frame + 1 \<le> i"
proof -
  from assms(2,3) have "frame < i" by simp
  then show ?thesis by (rule inc_le)
qed

lemma word_succ_le:
  fixes frame i bound :: "'a::len word"
  assumes "frame < bound" and "frame + 1 \<le> i"
  shows "frame < i"
proof -
  have "unat (frame + 1) = Suc (unat frame)"
    using assms(1) by (rule unat_word_succ)
  with assms(2) show ?thesis
    by (simp add: word_le_nat_alt word_less_nat_alt)
qed


section \<open>The frame copies of Write and Read\<close>

lemma memcpy_Some:
  assumes "d + n \<le> length dst" and "s + n \<le> length src"
  shows "memcpy dst d src s n = Some (take d dst @ take n (drop s src) @ drop (d + n) dst)"
  using assms by (simp add: memcpy_def)

lemma memcpy_length:
  assumes "memcpy dst d src s n = Some dst'"
  shows "length dst' = length dst"
  using assms by (auto simp: memcpy_def split: if_splits)

lemma memcpy_nth:
  assumes "memcpy dst d src s n = Some dst'" and "j < length dst"
  shows "dst' ! j = (if d \<le> j \<and> j < d + n then src ! (s + (j - d)) else dst ! j)"
proof -
  from assms(1) have b: "d + n \<le> length dst" "s + n \<le> length src"
    and eq: "dst' = take d dst @ take n (drop s src) @ drop (d + n) dst"
    by (auto simp: memcpy_def split: if_splits)
  have l1: "length (take d dst) = d"
    using b by simp
  have l2: "length (take n (drop s src)) = n"
    using b by simp
  show ?thesis
  proof (cases "j < d")
    case True
    with l1 show ?thesis by (simp add: eq nth_append)
  next
    case ge: False
    show ?thesis
    proof (cases "j < d + n")
      case True
      with ge have in_range: "j - d < n" by arith
      have "dst' ! j = (take n (drop s src) @ drop (d + n) dst) ! (j - d)"
        using ge l1 by (simp add: eq nth_append)
      also have "\<dots> = take n (drop s src) ! (j - d)"
        using in_range l2 by (simp add: nth_append)
      also have "\<dots> = src ! (s + (j - d))"
        using in_range b by simp
      finally show ?thesis using ge True by simp
    next
      case False
      have "dst' ! j = (take n (drop s src) @ drop (d + n) dst) ! (j - d)"
        using ge l1 by (simp add: eq nth_append)
      also have "\<dots> = drop (d + n) dst ! (j - d - n)"
        using False ge l2 by (simp add: nth_append)
      also have "\<dots> = dst ! j"
        using False ge b assms(2) by simp
      finally show ?thesis using ge False by simp
    qed
  qed
qed

lemma frame_cell_in_slot:
  fixes s t c n :: nat
  assumes "c < n"
  shows "(t * n \<le> s * n + c \<and> s * n + c < t * n + n) = (s = t)"
proof
  assume a: "t * n \<le> s * n + c \<and> s * n + c < t * n + n"
  show "s = t"
  proof (rule ccontr)
    assume "s \<noteq> t"
    then consider "s < t" | "t < s" by linarith
    then show False
    proof cases
      case 1
      then have "Suc s * n \<le> t * n" by (intro mult_le_mono1) simp
      with a assms show False by simp
    next
      case 2
      then have "Suc t * n \<le> s * n" by (intro mult_le_mono1) simp
      with a assms show False by simp
    qed
  qed
next
  assume "s = t"
  with assms show "t * n \<le> s * n + c \<and> s * n + c < t * n + n" by simp
qed

lemma frame_cell_bound:
  fixes s c n k :: nat
  assumes "s < k" and "c < n"
  shows "s * n + c < k * n"
proof -
  from assms(1) have "Suc s * n \<le> k * n" by (intro mult_le_mono1) simp
  with assms(2) show ?thesis by simp
qed

lemma Write_loop_correct:
  assumes "cap \<noteq> 0"
    and "length data = unat cap * unat chs"
    and "unat to_write * unat chs \<le> length src"
  shows "\<exists>data'. Write_loop chs cap wr to_write src frame data = Some data' \<and>
           length data' = length data \<and>
           (\<forall>i c. frame \<le> i \<and> i < to_write \<and> c < unat chs \<and>
                  (\<forall>j. i < j \<and> j < to_write \<longrightarrow> (wr + j) mod cap \<noteq> (wr + i) mod cap) \<longrightarrow>
                  data' ! (unat ((wr + i) mod cap) * unat chs + c) = src ! (unat i * unat chs + c)) \<and>
           (\<forall>s c. s < unat cap \<and> c < unat chs \<and>
                  (\<forall>j. frame \<le> j \<and> j < to_write \<longrightarrow> unat ((wr + j) mod cap) \<noteq> s) \<longrightarrow>
                  data' ! (s * unat chs + c) = data ! (s * unat chs + c))"
  using assms
proof (induction chs cap wr to_write src frame data rule: Write_loop.induct)
  case (1 chs cap wr to_write src frame data)
  show ?case
  proof (cases "frame < to_write")
    case False
    then have "Write_loop chs cap wr to_write src frame data = Some data"
      by (simp add: Write_loop.simps)
    moreover have "\<not> (frame \<le> i \<and> i < to_write)" for i
      using False by auto
    ultimately show ?thesis
      by blast
  next
    case True
    define t where "t = unat ((wr + frame) mod cap)"
    have t_lt: "t < unat cap"
      unfolding t_def using "1.prems"(1) by (rule unat_slot)
    have "Suc t * unat chs \<le> unat cap * unat chs"
      using t_lt by (intro mult_le_mono1) simp
    then have dst_ok: "t * unat chs + unat chs \<le> length data"
      using "1.prems"(2) by simp
    have "unat frame < unat to_write"
      using True by (simp add: word_less_nat_alt)
    then have "Suc (unat frame) * unat chs \<le> unat to_write * unat chs"
      by (intro mult_le_mono1) simp
    then have src_ok: "unat frame * unat chs + unat chs \<le> length src"
      using "1.prems"(3) by simp
    define data1 where
      "data1 = take (t * unat chs) data @ take (unat chs) (drop (unat frame * unat chs) src) @
               drop (t * unat chs + unat chs) data"
    have copy: "memcpy data (t * unat chs) src (unat frame * unat chs) (unat chs) = Some data1"
      unfolding data1_def using dst_ok src_ok by (rule memcpy_Some)
    have copy': "memcpy data (unat ((ucast ((wr + frame) mod cap) :: size_t) * ucast chs)) src
                   (unat ((ucast frame :: size_t) * ucast chs)) (unat chs) = Some data1"
      using copy by (simp add: unat_idx t_def)
    have len1: "length data1 = length data"
      using copy by (rule memcpy_length)
    have step: "Write_loop chs cap wr to_write src frame data =
                Write_loop chs cap wr to_write src (frame + 1) data1"
      using True "1.prems"(1) copy'
      by (subst Write_loop.simps) (simp add: Let_def)
    have "\<exists>data'. Write_loop chs cap wr to_write src (frame + 1) data1 = Some data' \<and>
           length data' = length data1 \<and>
           (\<forall>i c. frame + 1 \<le> i \<and> i < to_write \<and> c < unat chs \<and>
                  (\<forall>j. i < j \<and> j < to_write \<longrightarrow> (wr + j) mod cap \<noteq> (wr + i) mod cap) \<longrightarrow>
                  data' ! (unat ((wr + i) mod cap) * unat chs + c) = src ! (unat i * unat chs + c)) \<and>
           (\<forall>s c. s < unat cap \<and> c < unat chs \<and>
                  (\<forall>j. frame + 1 \<le> j \<and> j < to_write \<longrightarrow> unat ((wr + j) mod cap) \<noteq> s) \<longrightarrow>
                  data' ! (s * unat chs + c) = data1 ! (s * unat chs + c))"
    proof (rule "1.IH" [OF True _ refl refl refl copy'])
      show "cap \<noteq> 0" by (fact "1.prems"(1))
      show "cap \<noteq> 0" by (fact "1.prems"(1))
      show "length data1 = unat cap * unat chs" using len1 "1.prems"(2) by simp
      show "unat to_write * unat chs \<le> length src" by (fact "1.prems"(3))
    qed
    then obtain data' where
      run: "Write_loop chs cap wr to_write src (frame + 1) data1 = Some data'"
      and len: "length data' = length data1"
      and later: "\<And>i c. frame + 1 \<le> i \<Longrightarrow> i < to_write \<Longrightarrow> c < unat chs \<Longrightarrow>
                  (\<forall>j. i < j \<and> j < to_write \<longrightarrow> (wr + j) mod cap \<noteq> (wr + i) mod cap) \<Longrightarrow>
                  data' ! (unat ((wr + i) mod cap) * unat chs + c) = src ! (unat i * unat chs + c)"
      and kept: "\<And>s c. s < unat cap \<Longrightarrow> c < unat chs \<Longrightarrow>
                  (\<forall>j. frame + 1 \<le> j \<and> j < to_write \<longrightarrow> unat ((wr + j) mod cap) \<noteq> s) \<Longrightarrow>
                  data' ! (s * unat chs + c) = data1 ! (s * unat chs + c)"
      by blast
    have cell1: "data1 ! (s * unat chs + c) =
                 (if s = t then src ! (unat frame * unat chs + c) else data ! (s * unat chs + c))"
      if "s < unat cap" and "c < unat chs" for s c
    proof -
      have "s * unat chs + c < length data"
        using that "1.prems"(2) by (simp add: frame_cell_bound)
      from memcpy_nth [OF copy this]
      show ?thesis
        using that(2) by (auto simp: frame_cell_in_slot)
    qed
    have a: "data' ! (unat ((wr + i) mod cap) * unat chs + c) = src ! (unat i * unat chs + c)"
      if "frame \<le> i" and "i < to_write" and "c < unat chs"
        and alone: "\<forall>j. i < j \<and> j < to_write \<longrightarrow> (wr + j) mod cap \<noteq> (wr + i) mod cap"
      for i c
    proof (cases "i = frame")
      case False
      from True that(1) False have "frame + 1 \<le> i"
        by (rule word_le_succ)
      then show ?thesis
        using that(2,3) alone by (rule later)
    next
      case eq: True
      have "\<forall>j. frame + 1 \<le> j \<and> j < to_write \<longrightarrow> unat ((wr + j) mod cap) \<noteq> t"
      proof (intro allI impI)
        fix j
        assume j: "frame + 1 \<le> j \<and> j < to_write"
        then have "frame + 1 \<le> j" by simp
        with True have "frame < j"
          by (rule word_succ_le)
        with alone j eq have "(wr + j) mod cap \<noteq> (wr + frame) mod cap"
          by simp
        then show "unat ((wr + j) mod cap) \<noteq> t"
          by (simp add: t_def word_unat_eq_iff)
      qed
      with t_lt that(3) have "data' ! (t * unat chs + c) = data1 ! (t * unat chs + c)"
        by (rule kept)
      also have "\<dots> = src ! (unat frame * unat chs + c)"
        using t_lt that(3) by (simp add: cell1)
      finally show ?thesis
        by (simp add: eq t_def)
    qed
    have b: "data' ! (s * unat chs + c) = data ! (s * unat chs + c)"
      if "s < unat cap" and "c < unat chs"
        and missed: "\<forall>j. frame \<le> j \<and> j < to_write \<longrightarrow> unat ((wr + j) mod cap) \<noteq> s"
      for s c
    proof -
      have "\<forall>j. frame + 1 \<le> j \<and> j < to_write \<longrightarrow> unat ((wr + j) mod cap) \<noteq> s"
      proof (intro allI impI)
        fix j
        assume j: "frame + 1 \<le> j \<and> j < to_write"
        then have "frame + 1 \<le> j" by simp
        with True have "frame < j"
          by (rule word_succ_le)
        with missed j show "unat ((wr + j) mod cap) \<noteq> s"
          by simp
      qed
      with that(1,2) have "data' ! (s * unat chs + c) = data1 ! (s * unat chs + c)"
        by (rule kept)
      moreover have "s \<noteq> t"
        using missed True by (auto simp: t_def)
      ultimately show ?thesis
        using that(1,2) by (simp add: cell1)
    qed
    show ?thesis
      using step run len len1 a b by simp
  qed
qed

lemma Read_loop_correct:
  assumes "cap \<noteq> 0"
    and "length data = unat cap * unat chs"
    and "unat to_read * unat chs \<le> length buf"
  shows "\<exists>buf'. Read_loop chs cap rd to_read data frame buf = Some buf' \<and>
           length buf' = length buf \<and>
           (\<forall>i c. frame \<le> i \<and> i < to_read \<and> c < unat chs \<longrightarrow>
                  buf' ! (unat i * unat chs + c) = data ! (unat ((rd + i) mod cap) * unat chs + c)) \<and>
           (\<forall>j. j < length buf \<and> (j < unat frame * unat chs \<or> unat to_read * unat chs \<le> j) \<longrightarrow>
                buf' ! j = buf ! j)"
  using assms
proof (induction chs cap rd to_read data frame buf rule: Read_loop.induct)
  case (1 chs cap rd to_read data frame buf)
  show ?case
  proof (cases "frame < to_read")
    case False
    then have "Read_loop chs cap rd to_read data frame buf = Some buf"
      by (simp add: Read_loop.simps)
    moreover have "\<not> (frame \<le> i \<and> i < to_read)" for i
      using False by auto
    ultimately show ?thesis
      by blast
  next
    case True
    define t where "t = unat ((rd + frame) mod cap)"
    have t_lt: "t < unat cap"
      unfolding t_def using "1.prems"(1) by (rule unat_slot)
    have "Suc t * unat chs \<le> unat cap * unat chs"
      using t_lt by (intro mult_le_mono1) simp
    then have src_ok: "t * unat chs + unat chs \<le> length data"
      using "1.prems"(2) by simp
    have below: "unat frame < unat to_read"
      using True by (simp add: word_less_nat_alt)
    then have next_le: "Suc (unat frame) * unat chs \<le> unat to_read * unat chs"
      by (intro mult_le_mono1) simp
    then have dst_ok: "unat frame * unat chs + unat chs \<le> length buf"
      using "1.prems"(3) by simp
    have succ: "unat (frame + 1) = Suc (unat frame)"
      using True by (rule unat_word_succ)
    define buf1 where
      "buf1 = take (unat frame * unat chs) buf @ take (unat chs) (drop (t * unat chs) data) @
              drop (unat frame * unat chs + unat chs) buf"
    have copy: "memcpy buf (unat frame * unat chs) data (t * unat chs) (unat chs) = Some buf1"
      unfolding buf1_def using dst_ok src_ok by (rule memcpy_Some)
    have copy': "memcpy buf (unat ((ucast frame :: size_t) * ucast chs)) data
                   (unat ((ucast ((rd + frame) mod cap) :: size_t) * ucast chs)) (unat chs) = Some buf1"
      using copy by (simp add: unat_idx t_def)
    have len1: "length buf1 = length buf"
      using copy by (rule memcpy_length)
    have step: "Read_loop chs cap rd to_read data frame buf =
                Read_loop chs cap rd to_read data (frame + 1) buf1"
      using True "1.prems"(1) copy'
      by (subst Read_loop.simps) (simp add: Let_def)
    have "\<exists>buf'. Read_loop chs cap rd to_read data (frame + 1) buf1 = Some buf' \<and>
           length buf' = length buf1 \<and>
           (\<forall>i c. frame + 1 \<le> i \<and> i < to_read \<and> c < unat chs \<longrightarrow>
                  buf' ! (unat i * unat chs + c) = data ! (unat ((rd + i) mod cap) * unat chs + c)) \<and>
           (\<forall>j. j < length buf1 \<and> (j < unat (frame + 1) * unat chs \<or> unat to_read * unat chs \<le> j) \<longrightarrow>
                buf' ! j = buf1 ! j)"
    proof (rule "1.IH" [OF True _ refl refl refl copy'])
      show "cap \<noteq> 0" by (fact "1.prems"(1))
      show "cap \<noteq> 0" by (fact "1.prems"(1))
      show "length data = unat cap * unat chs" by (fact "1.prems"(2))
      show "unat to_read * unat chs \<le> length buf1" using len1 "1.prems"(3) by simp
    qed
    then obtain buf' where
      run: "Read_loop chs cap rd to_read data (frame + 1) buf1 = Some buf'"
      and len: "length buf' = length buf1"
      and later: "\<And>i c. frame + 1 \<le> i \<Longrightarrow> i < to_read \<Longrightarrow> c < unat chs \<Longrightarrow>
                  buf' ! (unat i * unat chs + c) = data ! (unat ((rd + i) mod cap) * unat chs + c)"
      and kept: "\<And>j. j < length buf1 \<Longrightarrow> j < unat (frame + 1) * unat chs \<or> unat to_read * unat chs \<le> j \<Longrightarrow>
                  buf' ! j = buf1 ! j"
      by blast
    have a: "buf' ! (unat i * unat chs + c) = data ! (unat ((rd + i) mod cap) * unat chs + c)"
      if "frame \<le> i" and "i < to_read" and "c < unat chs" for i c
    proof (cases "i = frame")
      case False
      from True that(1) False have "frame + 1 \<le> i"
        by (rule word_le_succ)
      then show ?thesis
        using that(2,3) by (rule later)
    next
      case eq: True
      have in_buf: "unat frame * unat chs + c < length buf"
        using dst_ok that(3) by simp
      have "unat frame * unat chs + c < unat (frame + 1) * unat chs"
        using that(3) by (simp add: succ)
      with in_buf len1 have "buf' ! (unat frame * unat chs + c) = buf1 ! (unat frame * unat chs + c)"
        by (intro kept) simp_all
      also have "\<dots> = data ! (t * unat chs + c)"
        using memcpy_nth [OF copy in_buf] that(3) by simp
      finally show ?thesis
        by (simp add: eq t_def)
    qed
    have b: "buf' ! j = buf ! j"
      if "j < length buf" and "j < unat frame * unat chs \<or> unat to_read * unat chs \<le> j" for j
    proof -
      have "j < unat (frame + 1) * unat chs \<or> unat to_read * unat chs \<le> j"
        using that(2) by (auto simp: succ)
      with that(1) len1 have "buf' ! j = buf1 ! j"
        by (intro kept) simp_all
      moreover have "\<not> (unat frame * unat chs \<le> j \<and> j < unat frame * unat chs + unat chs)"
        using that(2) next_le by auto
      ultimately show ?thesis
        using memcpy_nth [OF copy that(1)] by simp
    qed
    show ?thesis
      using step run len len1 a b by simp
  qed
qed

section \<open>One call of Write or Read on an open ring\<close>

lemma unat_write_count:
  "unat (write_count h n) =
     min (unat n) (unat (capacity_frames h) -
                   min (unat (write_index h - read_index h)) (unat (capacity_frames h)))"
  by (simp add: write_count_def unat_clamp unat_free)

lemma unat_read_count:
  "unat (read_count h n) =
     min (unat n) (min (unat (write_index h - read_index h)) (unat (capacity_frames h)))"
  by (simp add: read_count_def unat_clamp MinU32_unat)

lemma write_count_0 [simp]: "write_count h 0 = 0"
  by (simp add: word_unat_eq_iff unat_write_count)

lemma read_count_0 [simp]: "read_count h 0 = 0"
  by (simp add: word_unat_eq_iff unat_read_count)

lemma Write_unfold:
  assumes "mapped_at r fs p m"
  shows "Write r fs (Some src) n =
     (if write_count (header m) n = 0 then Some (0, fs)
      else
        (case Write_loop (channels (header m)) (capacity_frames (header m))
                (write_index (header m)) (write_count (header m) n) src 0 (mapped_cells r m) of
           None \<Rightarrow> None
         | Some data' \<Rightarrow>
            Some (ucast (write_count (header m) n),
                  fs(p \<mapsto> m\<lparr>cells := data' @ drop (cell_count (this_mapping_size r)) (cells m),
                            header := (header m)\<lparr>write_index :=
                                  write_index (header m) + write_count (header m) n\<rparr>\<rparr>))))"
proof (cases "n = 0")
  case True
  with assms show ?thesis
    by (simp add: Write_def mapped_at_def)
next
  case False
  with assms show ?thesis
    by (simp add: mapped_at_def Write_def DataStart_def Let_def flip: write_count_def
             split: option.splits)
qed

lemma Read_unfold:
  assumes "mapped_at r fs p m"
  shows "Read r fs (Some buf) n =
     (if read_count (header m) n = 0 then Some (0, Some buf, fs)
      else
        (case Read_loop (channels (header m)) (capacity_frames (header m))
                (read_index (header m)) (read_count (header m) n) (mapped_cells r m) 0 buf of
           None \<Rightarrow> None
         | Some buf' \<Rightarrow>
            Some (ucast (read_count (header m) n), Some buf',
                  fs(p \<mapsto> m\<lparr>header := (header m)\<lparr>read_index :=
                                  read_index (header m) + read_count (header m) n\<rparr>\<rparr>))))"
proof (cases "n = 0")
  case True
  with assms show ?thesis
    by (simp add: Read_def mapped_at_def)
next
  case False
  with assms show ?thesis
    by (simp add: mapped_at_def Read_def DataStart_def Let_def flip: read_count_def
             split: option.splits)
qed

lemma mapped_cells_covered:
  assumes "mapping_covers r m"
  shows "mapped_cells r m = cells m" and "drop (cell_count (this_mapping_size r)) (cells m) = []"
  using assms by (simp_all add: mapping_covers_def mapped_cells_def)

lemma Write_unfold_covered:
  assumes "mapped_at r fs p m" and "mapping_covers r m"
  shows "Write r fs (Some src) n =
     (if write_count (header m) n = 0 then Some (0, fs)
      else
        (case Write_loop (channels (header m)) (capacity_frames (header m))
                (write_index (header m)) (write_count (header m) n) src 0 (cells m) of
           None \<Rightarrow> None
         | Some data' \<Rightarrow>
            Some (ucast (write_count (header m) n),
                  fs(p \<mapsto> m\<lparr>cells := data', header := (header m)\<lparr>write_index :=
                                  write_index (header m) + write_count (header m) n\<rparr>\<rparr>))))"
  unfolding Write_unfold [OF assms(1)] mapped_cells_covered [OF assms(2)] append_Nil2 by simp

lemma Read_unfold_covered:
  assumes "mapped_at r fs p m" and "mapping_covers r m"
  shows "Read r fs (Some buf) n =
     (if read_count (header m) n = 0 then Some (0, Some buf, fs)
      else
        (case Read_loop (channels (header m)) (capacity_frames (header m))
                (read_index (header m)) (read_count (header m) n) (cells m) 0 buf of
           None \<Rightarrow> None
         | Some buf' \<Rightarrow>
            Some (ucast (read_count (header m) n), Some buf',
                  fs(p \<mapsto> m\<lparr>header := (header m)\<lparr>read_index :=
                                  read_index (header m) + read_count (header m) n\<rparr>\<rparr>))))"
  unfolding Read_unfold [OF assms(1)] mapped_cells_covered [OF assms(2)] by simp

lemma write_count_le: "unat (write_count h n) \<le> unat n"
  by (simp add: unat_write_count)

lemma read_count_le: "unat (read_count h n) \<le> unat n"
  by (simp add: unat_read_count)

lemma write_count_cap: "write_count h n \<noteq> 0 \<Longrightarrow> capacity_frames h \<noteq> 0"
  by (auto simp: word_unat_eq_iff unat_write_count)

lemma read_count_cap: "read_count h n \<noteq> 0 \<Longrightarrow> capacity_frames h \<noteq> 0"
  by (auto simp: word_unat_eq_iff unat_read_count)

lemma Write_result:
  assumes m: "mapped_at r fs p m"
    and fits: "buffer_fits m"
    and covers: "mapping_covers r m"
    and src: "unat n * unat (channels (header m)) \<le> length src"
  shows "\<exists>data'.
           Write r fs (Some src) n =
             Some (ucast (write_count (header m) n),
                   fs(p \<mapsto> m\<lparr>cells := data', header := (header m)\<lparr>write_index :=
                          write_index (header m) + write_count (header m) n\<rparr>\<rparr>)) \<and>
           length data' = length (cells m) \<and>
           (\<forall>i c. i < write_count (header m) n \<and> c < unat (channels (header m)) \<and>
                  (\<forall>j. i < j \<and> j < write_count (header m) n \<longrightarrow>
                       (write_index (header m) + j) mod capacity_frames (header m) \<noteq>
                       (write_index (header m) + i) mod capacity_frames (header m)) \<longrightarrow>
                  data' ! (unat ((write_index (header m) + i) mod capacity_frames (header m)) *
                             unat (channels (header m)) + c) =
                  src ! (unat i * unat (channels (header m)) + c)) \<and>
           (\<forall>s c. s < unat (capacity_frames (header m)) \<and> c < unat (channels (header m)) \<and>
                  (\<forall>j. j < write_count (header m) n \<longrightarrow>
                       unat ((write_index (header m) + j) mod capacity_frames (header m)) \<noteq> s) \<longrightarrow>
                  data' ! (s * unat (channels (header m)) + c) =
                  cells m ! (s * unat (channels (header m)) + c))"
proof (cases "write_count (header m) n = 0")
  case True
  have "fs(p \<mapsto> m) = fs"
    using m by (auto simp: mapped_at_def)
  then have "Write r fs (Some src) n =
             Some (ucast (write_count (header m) n),
                   fs(p \<mapsto> m\<lparr>cells := cells m, header := (header m)\<lparr>write_index :=
                          write_index (header m) + write_count (header m) n\<rparr>\<rparr>))"
    using True by (simp add: Write_unfold_covered [OF m covers])
  with True show ?thesis
    by (intro exI [of _ "cells m"]) simp
next
  case False
  define h where "h = header m"
  have cap: "capacity_frames h \<noteq> 0"
    using False unfolding h_def by (rule write_count_cap)
  have len: "length (cells m) = unat (capacity_frames h) * unat (channels h)"
    using fits by (simp add: buffer_fits_def h_def)
  have "unat (write_count h n) * unat (channels h) \<le> unat n * unat (channels h)"
    by (intro mult_le_mono1 write_count_le)
  also have "\<dots> \<le> length src"
    using src by (simp only: h_def)
  finally have enough: "unat (write_count h n) * unat (channels h) \<le> length src" .
  from Write_loop_correct [OF cap len enough, of "write_index h" 0]
  obtain data' where
    run: "Write_loop (channels h) (capacity_frames h) (write_index h) (write_count h n) src 0
            (cells m) = Some data'"
    and rest: "length data' = length (cells m) \<and>
           (\<forall>i c. 0 \<le> i \<and> i < write_count h n \<and> c < unat (channels h) \<and>
                  (\<forall>j. i < j \<and> j < write_count h n \<longrightarrow>
                       (write_index h + j) mod capacity_frames h \<noteq>
                       (write_index h + i) mod capacity_frames h) \<longrightarrow>
                  data' ! (unat ((write_index h + i) mod capacity_frames h) * unat (channels h) + c) =
                  src ! (unat i * unat (channels h) + c)) \<and>
           (\<forall>s c. s < unat (capacity_frames h) \<and> c < unat (channels h) \<and>
                  (\<forall>j. 0 \<le> j \<and> j < write_count h n \<longrightarrow>
                       unat ((write_index h + j) mod capacity_frames h) \<noteq> s) \<longrightarrow>
                  data' ! (s * unat (channels h) + c) = cells m ! (s * unat (channels h) + c))"
    by blast
  have "Write r fs (Some src) n =
             Some (ucast (write_count h n),
                   fs(p \<mapsto> m\<lparr>cells := data', header := h\<lparr>write_index :=
                          write_index h + write_count h n\<rparr>\<rparr>))"
    using False run by (simp add: Write_unfold_covered [OF m covers] h_def)
  with rest show ?thesis
    unfolding h_def by (intro exI [of _ data']) simp
qed

lemma Read_result:
  assumes m: "mapped_at r fs p m"
    and fits: "buffer_fits m"
    and covers: "mapping_covers r m"
    and dst: "unat n * unat (channels (header m)) \<le> length buf"
  shows "\<exists>buf'.
           Read r fs (Some buf) n =
             Some (ucast (read_count (header m) n), Some buf',
                   fs(p \<mapsto> m\<lparr>header := (header m)\<lparr>read_index :=
                          read_index (header m) + read_count (header m) n\<rparr>\<rparr>)) \<and>
           length buf' = length buf \<and>
           (\<forall>i c. i < read_count (header m) n \<and> c < unat (channels (header m)) \<longrightarrow>
                  buf' ! (unat i * unat (channels (header m)) + c) =
                  cells m ! (unat ((read_index (header m) + i) mod capacity_frames (header m)) *
                               unat (channels (header m)) + c)) \<and>
           (\<forall>j. j < length buf \<and>
                unat (read_count (header m) n) * unat (channels (header m)) \<le> j \<longrightarrow>
                buf' ! j = buf ! j)"
proof (cases "read_count (header m) n = 0")
  case True
  have "fs(p \<mapsto> m) = fs"
    using m by (auto simp: mapped_at_def)
  then have "Read r fs (Some buf) n =
             Some (ucast (read_count (header m) n), Some buf,
                   fs(p \<mapsto> m\<lparr>header := (header m)\<lparr>read_index :=
                          read_index (header m) + read_count (header m) n\<rparr>\<rparr>))"
    using True by (simp add: Read_unfold_covered [OF m covers])
  with True show ?thesis
    by (intro exI [of _ buf]) simp
next
  case False
  define h where "h = header m"
  have cap: "capacity_frames h \<noteq> 0"
    using False unfolding h_def by (rule read_count_cap)
  have len: "length (cells m) = unat (capacity_frames h) * unat (channels h)"
    using fits by (simp add: buffer_fits_def h_def)
  have "unat (read_count h n) * unat (channels h) \<le> unat n * unat (channels h)"
    by (intro mult_le_mono1 read_count_le)
  also have "\<dots> \<le> length buf"
    using dst by (simp only: h_def)
  finally have enough: "unat (read_count h n) * unat (channels h) \<le> length buf" .
  from Read_loop_correct [OF cap len enough, of "read_index h" 0]
  obtain buf' where
    run: "Read_loop (channels h) (capacity_frames h) (read_index h) (read_count h n) (cells m) 0
            buf = Some buf'"
    and rest: "length buf' = length buf \<and>
           (\<forall>i c. 0 \<le> i \<and> i < read_count h n \<and> c < unat (channels h) \<longrightarrow>
                  buf' ! (unat i * unat (channels h) + c) =
                  cells m ! (unat ((read_index h + i) mod capacity_frames h) * unat (channels h) + c)) \<and>
           (\<forall>j. j < length buf \<and>
                (j < unat (0 :: u32) * unat (channels h) \<or>
                 unat (read_count h n) * unat (channels h) \<le> j) \<longrightarrow>
                buf' ! j = buf ! j)"
    by blast
  have "Read r fs (Some buf) n =
             Some (ucast (read_count h n), Some buf',
                   fs(p \<mapsto> m\<lparr>header := h\<lparr>read_index := read_index h + read_count h n\<rparr>\<rparr>))"
    using False run by (simp add: Read_unfold_covered [OF m covers] h_def)
  with rest show ?thesis
    unfolding h_def by (intro exI [of _ buf']) simp
qed

lemma u32_of_nat_below:
  fixes x :: u32
  assumes "i < unat x"
  shows "unat (of_nat i :: u32) = i" and "(of_nat i :: u32) < x"
proof -
  have "i < 2 ^ LENGTH(32)"
    using assms unsigned_less [of x] by (rule less_trans)
  then show eq: "unat (of_nat i :: u32) = i"
    by (simp add: unat_of_nat take_bit_nat_eq_self)
  show "(of_nat i :: u32) < x"
    using assms by (simp add: word_less_nat_alt eq)
qed

lemma Write_frames:
  assumes m: "mapped_at r fs p m"
    and fits: "buffer_fits m"
    and covers: "mapping_covers r m"
    and src: "unat n * unat (channels (header m)) \<le> length src"
  shows "\<exists>fs' m'.
           Write r fs (Some src) n = Some (ucast (write_count (header m) n), fs') \<and>
           mapped_at r fs' p m' \<and>
           header m' = (header m)\<lparr>write_index :=
                          write_index (header m) + write_count (header m) n\<rparr> \<and>
           length (cells m') = length (cells m) \<and>
           mapping_covers r m' \<and>
           (\<forall>i c. i < unat (write_count (header m) n) \<and> c < unat (channels (header m)) \<and>
                  (\<forall>j. i < j \<and> j < unat (write_count (header m) n) \<longrightarrow>
                       unat ((write_index (header m) + of_nat j) mod capacity_frames (header m)) \<noteq>
                       unat ((write_index (header m) + of_nat i) mod capacity_frames (header m))) \<longrightarrow>
                  cells m' ! (unat ((write_index (header m) + of_nat i) mod
                                     capacity_frames (header m)) *
                              unat (channels (header m)) + c) =
                  src ! (i * unat (channels (header m)) + c)) \<and>
           (\<forall>s c. s < unat (capacity_frames (header m)) \<and> c < unat (channels (header m)) \<and>
                  (\<forall>j. j < unat (write_count (header m) n) \<longrightarrow>
                       unat ((write_index (header m) + of_nat j) mod capacity_frames (header m)) \<noteq> s) \<longrightarrow>
                  cells m' ! (s * unat (channels (header m)) + c) =
                  cells m ! (s * unat (channels (header m)) + c))"
proof -
  define h where "h = header m"
  define k where "k = write_count h n"
  from Write_result [OF m fits covers src]
  obtain data' where
    run: "Write r fs (Some src) n =
            Some (ucast k, fs(p \<mapsto> m\<lparr>cells := data', header := h\<lparr>write_index := write_index h + k\<rparr>\<rparr>))"
    and len: "length data' = length (cells m)"
    and put: "\<And>i c. i < k \<Longrightarrow> c < unat (channels h) \<Longrightarrow>
                  (\<forall>j. i < j \<and> j < k \<longrightarrow>
                       (write_index h + j) mod capacity_frames h \<noteq>
                       (write_index h + i) mod capacity_frames h) \<Longrightarrow>
                  data' ! (unat ((write_index h + i) mod capacity_frames h) * unat (channels h) + c) =
                  src ! (unat i * unat (channels h) + c)"
    and kept: "\<And>s c. s < unat (capacity_frames h) \<Longrightarrow> c < unat (channels h) \<Longrightarrow>
                  (\<forall>j. j < k \<longrightarrow> unat ((write_index h + j) mod capacity_frames h) \<noteq> s) \<Longrightarrow>
                  data' ! (s * unat (channels h) + c) = cells m ! (s * unat (channels h) + c)"
    unfolding h_def k_def by blast
  define m' where "m' = m\<lparr>cells := data', header := h\<lparr>write_index := write_index h + k\<rparr>\<rparr>"
  have a: "cells m' ! (unat ((write_index h + of_nat i) mod capacity_frames h) * unat (channels h) + c) =
           src ! (i * unat (channels h) + c)"
    if i: "i < unat k" and c: "c < unat (channels h)"
      and alone: "\<forall>j. i < j \<and> j < unat k \<longrightarrow>
                    unat ((write_index h + of_nat j) mod capacity_frames h) \<noteq>
                    unat ((write_index h + of_nat i) mod capacity_frames h)"
    for i c
  proof -
    have "\<forall>j. of_nat i < j \<and> j < k \<longrightarrow>
               (write_index h + j) mod capacity_frames h \<noteq>
               (write_index h + of_nat i) mod capacity_frames h"
    proof (intro allI impI)
      fix j :: u32
      assume j: "of_nat i < j \<and> j < k"
      then have "i < unat j \<and> unat j < unat k"
        using u32_of_nat_below(1) [OF i] by (simp add: word_less_nat_alt)
      with alone have "unat ((write_index h + of_nat (unat j)) mod capacity_frames h) \<noteq>
                       unat ((write_index h + of_nat i) mod capacity_frames h)"
        by blast
      then show "(write_index h + j) mod capacity_frames h \<noteq>
                 (write_index h + of_nat i) mod capacity_frames h"
        by auto
    qed
    with put [OF u32_of_nat_below(2) [OF i] c] show ?thesis
      by (simp add: m'_def u32_of_nat_below(1) [OF i])
  qed
  have b: "cells m' ! (s * unat (channels h) + c) = cells m ! (s * unat (channels h) + c)"
    if s: "s < unat (capacity_frames h)" and c: "c < unat (channels h)"
      and missed: "\<forall>j. j < unat k \<longrightarrow> unat ((write_index h + of_nat j) mod capacity_frames h) \<noteq> s"
    for s c
  proof -
    have "\<forall>j. j < k \<longrightarrow> unat ((write_index h + j) mod capacity_frames h) \<noteq> s"
    proof (intro allI impI)
      fix j :: u32
      assume "j < k"
      then have "unat j < unat k"
        by (simp add: word_less_nat_alt)
      with missed have "unat ((write_index h + of_nat (unat j)) mod capacity_frames h) \<noteq> s"
        by blast
      then show "unat ((write_index h + j) mod capacity_frames h) \<noteq> s"
        by simp
    qed
    with kept [OF s c] show ?thesis
      by (simp add: m'_def)
  qed
  have "mapped_at r (fs(p \<mapsto> m')) p m'"
    using m by (simp add: mapped_at_def)
  moreover have "header m' = h\<lparr>write_index := write_index h + k\<rparr>"
    by (simp add: m'_def)
  moreover have "length (cells m') = length (cells m)"
    using len by (simp add: m'_def)
  moreover have "mapping_covers r m'"
    using covers len by (simp add: mapping_covers_def m'_def)
  moreover have "Write r fs (Some src) n = Some (ucast k, fs(p \<mapsto> m'))"
    using run by (simp add: m'_def)
  ultimately show ?thesis
    using a b unfolding h_def k_def by blast
qed

lemma Read_frames:
  assumes m: "mapped_at r fs p m"
    and fits: "buffer_fits m"
    and covers: "mapping_covers r m"
    and dst: "unat n * unat (channels (header m)) \<le> length buf"
  shows "\<exists>buf' fs' m'.
           Read r fs (Some buf) n = Some (ucast (read_count (header m) n), Some buf', fs') \<and>
           mapped_at r fs' p m' \<and>
           header m' = (header m)\<lparr>read_index :=
                          read_index (header m) + read_count (header m) n\<rparr> \<and>
           cells m' = cells m \<and>
           mapping_covers r m' \<and>
           length buf' = length buf \<and>
           (\<forall>i c. i < unat (read_count (header m) n) \<and> c < unat (channels (header m)) \<longrightarrow>
                  buf' ! (i * unat (channels (header m)) + c) =
                  cells m ! (unat ((read_index (header m) + of_nat i) mod
                                    capacity_frames (header m)) *
                             unat (channels (header m)) + c)) \<and>
           (\<forall>j. j < length buf \<and>
                unat (read_count (header m) n) * unat (channels (header m)) \<le> j \<longrightarrow>
                buf' ! j = buf ! j)"
proof -
  define h where "h = header m"
  define k where "k = read_count h n"
  from Read_result [OF m fits covers dst]
  obtain buf' where
    run: "Read r fs (Some buf) n =
            Some (ucast k, Some buf', fs(p \<mapsto> m\<lparr>header := h\<lparr>read_index := read_index h + k\<rparr>\<rparr>))"
    and len: "length buf' = length buf"
    and got: "\<And>i c. i < k \<Longrightarrow> c < unat (channels h) \<Longrightarrow>
                  buf' ! (unat i * unat (channels h) + c) =
                  cells m ! (unat ((read_index h + i) mod capacity_frames h) * unat (channels h) + c)"
    and kept: "\<And>j. j < length buf \<Longrightarrow> unat k * unat (channels h) \<le> j \<Longrightarrow> buf' ! j = buf ! j"
    unfolding h_def k_def by blast
  define m' where "m' = m\<lparr>header := h\<lparr>read_index := read_index h + k\<rparr>\<rparr>"
  have a: "buf' ! (i * unat (channels h) + c) =
           cells m ! (unat ((read_index h + of_nat i) mod capacity_frames h) * unat (channels h) + c)"
    if i: "i < unat k" and c: "c < unat (channels h)" for i c
    using got [OF u32_of_nat_below(2) [OF i] c] by (simp add: u32_of_nat_below(1) [OF i])
  have "mapped_at r (fs(p \<mapsto> m')) p m'"
    using m by (simp add: mapped_at_def)
  moreover have "header m' = h\<lparr>read_index := read_index h + k\<rparr>"
    by (simp add: m'_def)
  moreover have "cells m' = cells m"
    by (simp add: m'_def)
  moreover have "mapping_covers r m'"
    using covers by (simp add: mapping_covers_def m'_def)
  moreover have "Read r fs (Some buf) n = Some (ucast k, Some buf', fs(p \<mapsto> m'))"
    using run by (simp add: m'_def)
  ultimately show ?thesis
    using a kept len unfolding h_def k_def by blast
qed

section \<open>An instance whose mapping is shorter than the file\<close>

text \<open>
  The copies are bounded by the instance's own mapping, not by the file. On the regrown
  file the instance with its 48 bytes maps the slots 0 to 2 only: a \<^verbatim>\<open>Read\<close> of the frame
  buffered in slot 3 has no result, and neither has a \<^verbatim>\<open>Write\<close> of four frames into the
  ring once it is empty, while a \<^verbatim>\<open>Write\<close> of three frames, into the slots 0 to 2, returns
  3 and leaves the two cells beyond the mapping as they are.
\<close>

lemma stale_mapping_example:
  "mapped_at ring_ex [''/tmp/r.ring'' \<mapsto> region_regrown_ex] ''/tmp/r.ring'' region_regrown_ex \<and>
   buffer_fits region_regrown_ex \<and> \<not> mapping_covers ring_ex region_regrown_ex \<and>
   Read ring_ex [''/tmp/r.ring'' \<mapsto> region_regrown_ex] (Some [9, 9]) 1 = None \<and>
   Write ring_ex
     [''/tmp/r.ring'' \<mapsto>
        region_regrown_ex\<lparr>header := (header region_regrown_ex)\<lparr>read_index := 4\<rparr>\<rparr>]
     (Some [1, 2, 3, 4, 5, 6, 7, 8]) 4 = None \<and>
   Write ring_ex [''/tmp/r.ring'' \<mapsto> region_regrown_ex] (Some [1, 2, 3, 4, 5, 6]) 4 =
     Some (3, [''/tmp/r.ring'' \<mapsto>
                 \<lparr>header = \<lparr>magic = kMagic, version = kVersion, channels = 2,
                             capacity_frames = 4, write_index = 7, read_index = 3\<rparr>,
                  cells = [1, 2, 3, 4, 5, 6, 7, 8]\<rparr>])"
  by (simp add: mapped_at_def buffer_fits_def covers_defs region_regrown_ex_def transport_defs)

section \<open>Backing path\<close>

lemma std_replace_map: "std_replace cs old new = map (\<lambda>c. if c = old then new else c) cs"
  by (induction cs) simp_all

lemma backing_file_spec: "backing_file name = spec_backing_path ''/tmp'' name"
  by (cases name) (simp_all add: backing_file_def spec_backing_path_def std_replace_map)

lemma backing_file_leading_slash:
  assumes "name = [] \<or> hd name \<noteq> CHR ''/''"
  shows "backing_file (CHR ''/'' # name) = backing_file name"
  using assms by (cases name) (simp_all add: backing_file_def)

lemma Open_True_path:
  assumes "Open k r fs name create chs cap = Some (True, r', fs')"
  shows "this_name r' = backing_file name \<and> this_mapping r' = Some (backing_file name)
         \<and> this_header r' = Some (backing_file name)"
  using assms
  by (auto simp: Open_def Let_def split: if_splits prod.splits option.splits)

text \<open>
  Claim C9. For every logical name, the path a successful \<^verbatim>\<open>Open\<close> maps and records is
  the one the specification describes, in the directory \<^verbatim>\<open>/tmp\<close>: one leading separator
  stripped, every remaining separator replaced by an underscore, the suffix \<^verbatim>\<open>.ring\<close>
  appended. A non-empty name that does not start with a separator and the same name
  with one separator in front give the same path, and \<^verbatim>\<open>Open\<close> does the same on both.
\<close>

theorem C9_backing_file:
  "(Open k r fs name create chs cap = Some (True, r', fs') \<longrightarrow>
      this_name r' = spec_backing_path ''/tmp'' name \<and>
      this_mapping r' = Some (spec_backing_path ''/tmp'' name)) \<and>
   (name \<noteq> [] \<and> hd name \<noteq> CHR ''/'' \<longrightarrow>
      backing_file (CHR ''/'' # name) = backing_file name \<and>
      Open k r fs (CHR ''/'' # name) create chs cap = Open k r fs name create chs cap)"
proof (intro conjI impI)
  assume "Open k r fs name create chs cap = Some (True, r', fs')"
  from Open_True_path [OF this]
  show "this_name r' = spec_backing_path ''/tmp'' name"
    and "this_mapping r' = Some (spec_backing_path ''/tmp'' name)"
    by (simp_all add: backing_file_spec)
next
  assume a: "name \<noteq> [] \<and> hd name \<noteq> CHR ''/''"
  then show eq: "backing_file (CHR ''/'' # name) = backing_file name"
    by (simp add: backing_file_leading_slash)
  from a show "Open k r fs (CHR ''/'' # name) create chs cap = Open k r fs name create chs cap"
    unfolding Open_def eq by simp
qed

theorem C9_backing_file_witness:
  "Open kernel_ok unopened Map.empty ''a/b'' True 2 3 =
     Some (True,
           \<lparr>this_shm_fd = 3, this_mapping = Some ''/tmp/a_b.ring'', this_mapping_size = 48,
            this_header = Some ''/tmp/a_b.ring'', this_name = ''/tmp/a_b.ring''\<rparr>,
           [''/tmp/a_b.ring'' \<mapsto>
              \<lparr>header = \<lparr>magic = kMagic, version = kVersion, channels = 2,
                          capacity_frames = 3, write_index = 0, read_index = 0\<rparr>,
               cells = replicate 6 0\<rparr>]) \<and>
   spec_backing_path ''/tmp'' ''a/b'' = ''/tmp/a_b.ring'' \<and>
   ''a/b'' \<noteq> [] \<and> hd ''a/b'' \<noteq> CHR ''/'' \<and>
   backing_file ''/a/b'' = backing_file ''a/b'' \<and>
   Open kernel_ok unopened Map.empty ''/a/b'' True 2 3 =
     Open kernel_ok unopened Map.empty ''a/b'' True 2 3"
proof -
  have opened: "Open kernel_ok unopened Map.empty ''a/b'' True 2 3 =
     Some (True,
           \<lparr>this_shm_fd = 3, this_mapping = Some ''/tmp/a_b.ring'', this_mapping_size = 48,
            this_header = Some ''/tmp/a_b.ring'', this_name = ''/tmp/a_b.ring''\<rparr>,
           [''/tmp/a_b.ring'' \<mapsto>
              \<lparr>header = \<lparr>magic = kMagic, version = kVersion, channels = 2,
                          capacity_frames = 3, write_index = 0, read_index = 0\<rparr>,
               cells = replicate 6 0\<rparr>])"
    by (simp add: segment_defs)
  have name: "''a/b'' \<noteq> [] \<and> hd ''a/b'' \<noteq> CHR ''/''"
    by simp
  from C9_backing_file [of kernel_ok unopened Map.empty "''a/b''" True 2 3] opened name
  show ?thesis
    by (simp add: spec_backing_path_def)
qed

section \<open>Transfer counts\<close>

text \<open>
  Claim C3. On an open ring whose frame buffer fits and lies within the instance's own
  mapping, with a caller's buffer of at least
  \<open>frame_count\<close> frames, \<^verbatim>\<open>Write\<close> returns \<open>min frame_count (capacity - used)\<close> and \<^verbatim>\<open>Read\<close>
  returns \<open>min frame_count used\<close>, where \<open>used = min (write_index - read_index) capacity\<close>
  and the difference is the wrapping 32-bit one. Writing \<open>capacity + extra\<close> frames into
  an empty ring returns \<open>capacity\<close>; the ring is then full: the index difference is the
  capacity and every further \<^verbatim>\<open>Write\<close> returns 0 and changes nothing.
\<close>

theorem C3_transfer_counts:
  assumes "mapped_at r fs p m" and "buffer_fits m" and "mapping_covers r m"
  shows "(unat n * unat (channels (header m)) \<le> length src \<longrightarrow>
           (\<exists>k fs'. Write r fs (Some src) n = Some (k, fs') \<and>
              unat k = min (unat n)
                 (unat (capacity_frames (header m)) -
                  min (unat (write_index (header m) - read_index (header m)))
                      (unat (capacity_frames (header m)))))) \<and>
         (unat n * unat (channels (header m)) \<le> length buf \<longrightarrow>
           (\<exists>k buf' fs'. Read r fs (Some buf) n = Some (k, buf', fs') \<and>
              unat k = min (unat n)
                 (min (unat (write_index (header m) - read_index (header m)))
                      (unat (capacity_frames (header m)))))) \<and>
         (write_index (header m) = read_index (header m) \<and>
          unat n = unat (capacity_frames (header m)) + extra \<and>
          unat n * unat (channels (header m)) \<le> length src \<longrightarrow>
           (\<exists>k fs' m'. Write r fs (Some src) n = Some (k, fs') \<and>
              unat k = unat (capacity_frames (header m)) \<and>
              mapped_at r fs' p m' \<and>
              capacity_frames (header m') = capacity_frames (header m) \<and>
              unat (write_index (header m') - read_index (header m')) =
                unat (capacity_frames (header m')) \<and>
              (\<forall>src' n'. Write r fs' (Some src') n' = Some (0, fs'))))"
proof (intro conjI impI)
  assume "unat n * unat (channels (header m)) \<le> length src"
  from Write_frames [OF assms this]
  show "\<exists>k fs'. Write r fs (Some src) n = Some (k, fs') \<and>
              unat k = min (unat n)
                 (unat (capacity_frames (header m)) -
                  min (unat (write_index (header m) - read_index (header m)))
                      (unat (capacity_frames (header m))))"
    by (auto simp: unat_ucast_u32 unat_write_count)
next
  assume "unat n * unat (channels (header m)) \<le> length buf"
  from Read_frames [OF assms this]
  show "\<exists>k buf' fs'. Read r fs (Some buf) n = Some (k, buf', fs') \<and>
              unat k = min (unat n)
                 (min (unat (write_index (header m) - read_index (header m)))
                      (unat (capacity_frames (header m))))"
    by (auto simp: unat_ucast_u32 unat_read_count)
next
  assume a: "write_index (header m) = read_index (header m) \<and>
          unat n = unat (capacity_frames (header m)) + extra \<and>
          unat n * unat (channels (header m)) \<le> length src"
  then have src: "unat n * unat (channels (header m)) \<le> length src"
    by (rule conjunct2 [THEN conjunct2])
  from a have count: "unat (write_count (header m) n) = unat (capacity_frames (header m))"
    by (simp add: unat_write_count)
  then have k: "write_count (header m) n = capacity_frames (header m)"
    by (simp add: word_unat_eq_iff)
  from Write_frames [OF assms src]
  obtain fs' m' where
    run: "Write r fs (Some src) n = Some (ucast (write_count (header m) n), fs')"
    and m': "mapped_at r fs' p m'"
    and h': "header m' = (header m)\<lparr>write_index :=
               write_index (header m) + write_count (header m) n\<rparr>"
    by blast
  have full: "write_index (header m') - read_index (header m') = capacity_frames (header m')"
    using a by (simp add: h' k)
  then have "write_count (header m') n' = 0" for n'
    by (simp add: word_unat_eq_iff unat_write_count)
  then have "Write r fs' (Some src') n' = Some (0, fs')" for src' n'
    by (simp add: Write_unfold [OF m'])
  with run m' full count show "\<exists>k fs' m'. Write r fs (Some src) n = Some (k, fs') \<and>
              unat k = unat (capacity_frames (header m)) \<and>
              mapped_at r fs' p m' \<and>
              capacity_frames (header m') = capacity_frames (header m) \<and>
              unat (write_index (header m') - read_index (header m')) =
                unat (capacity_frames (header m')) \<and>
              (\<forall>src' n'. Write r fs' (Some src') n' = Some (0, fs'))"
    by (intro exI [of _ "ucast (write_count (header m) n)"] exI [of _ fs'] exI [of _ m'])
       (simp add: unat_ucast_u32 h')
qed

theorem C3_transfer_counts_witness:
  "mapped_at ring_ex [''/tmp/r.ring'' \<mapsto> region_ex] ''/tmp/r.ring'' region_ex \<and>
   buffer_fits region_ex \<and> mapping_covers ring_ex region_ex \<and>
   (\<exists>k fs'. Write ring_ex [''/tmp/r.ring'' \<mapsto> region_ex] (Some [1, 2, 3, 4, 5, 6]) 3 = Some (k, fs') \<and>
      unat k = 2) \<and>
   (\<exists>k buf' fs'. Read ring_ex [''/tmp/r.ring'' \<mapsto> region_ex] (Some [9, 9, 9, 9, 9, 9]) 3 =
      Some (k, buf', fs') \<and> unat k = 1) \<and>
   mapped_at ring_ex [''/tmp/r.ring'' \<mapsto> region_empty_ex] ''/tmp/r.ring'' region_empty_ex \<and>
   buffer_fits region_empty_ex \<and> mapping_covers ring_ex region_empty_ex \<and>
   (\<exists>k fs'. Write ring_ex [''/tmp/r.ring'' \<mapsto> region_empty_ex]
               (Some [1, 2, 3, 4, 5, 6, 7, 8, 9, 10]) 5 = Some (k, fs') \<and>
      unat k = 3 \<and> (\<forall>src' n'. Write ring_ex fs' (Some src') n' = Some (0, fs')))"
proof -
  have m1: "mapped_at ring_ex [''/tmp/r.ring'' \<mapsto> region_ex] ''/tmp/r.ring'' region_ex"
    by (simp add: mapped_at_def ring_ex_def)
  have f1: "buffer_fits region_ex"
    by (simp add: buffer_fits_def region_ex_def)
  have m2: "mapped_at ring_ex [''/tmp/r.ring'' \<mapsto> region_empty_ex] ''/tmp/r.ring'' region_empty_ex"
    by (simp add: mapped_at_def ring_ex_def)
  have f2: "buffer_fits region_empty_ex"
    by (simp add: buffer_fits_def region_empty_ex_def)
  have c1: "mapping_covers ring_ex region_ex"
    by (simp add: covers_defs region_ex_def)
  have c2: "mapping_covers ring_ex region_empty_ex"
    by (simp add: covers_defs region_empty_ex_def)
  have h1: "header region_ex = \<lparr>magic = kMagic, version = kVersion, channels = 2,
              capacity_frames = 3, write_index = 5, read_index = 4\<rparr>"
    by (simp add: region_ex_def)
  have h2: "header region_empty_ex = \<lparr>magic = kMagic, version = kVersion, channels = 2,
              capacity_frames = 3, write_index = 7, read_index = 7\<rparr>"
    by (simp add: region_empty_ex_def)
  from C3_transfer_counts [OF m1 f1 c1, where n = 3 and src = "[1, 2, 3, 4, 5, 6]"
      and buf = "[9, 9, 9, 9, 9, 9]" and extra = 0]
  have a: "(\<exists>k fs'. Write ring_ex [''/tmp/r.ring'' \<mapsto> region_ex] (Some [1, 2, 3, 4, 5, 6]) 3 = Some (k, fs') \<and>
      unat k = 2) \<and>
   (\<exists>k buf' fs'. Read ring_ex [''/tmp/r.ring'' \<mapsto> region_ex] (Some [9, 9, 9, 9, 9, 9]) 3 =
      Some (k, buf', fs') \<and> unat k = 1)"
    by (simp add: h1)
  from C3_transfer_counts [OF m2 f2 c2, where n = 5 and src = "[1, 2, 3, 4, 5, 6, 7, 8, 9, 10]"
      and buf = "[]" and extra = 2]
  have b: "\<exists>k fs'. Write ring_ex [''/tmp/r.ring'' \<mapsto> region_empty_ex]
               (Some [1, 2, 3, 4, 5, 6, 7, 8, 9, 10]) 5 = Some (k, fs') \<and>
      unat k = 3 \<and> (\<forall>src' n'. Write ring_ex fs' (Some src') n' = Some (0, fs'))"
    by (simp add: h2) blast
  from m1 f1 c1 m2 f2 c2 a b show ?thesis
    by simp
qed

section \<open>Underrun\<close>

text \<open>
  Claim C4. On an open ring whose frame buffer fits and lies within the instance's own
  mapping, \<^verbatim>\<open>Read\<close> into a buffer of at least
  \<open>frame_count\<close> frames always returns (the loop ends, nothing waits). The count is
  \<open>min frame_count available\<close>: on an empty ring it is 0 and neither the buffer nor the
  file changes; when fewer frames are available than requested it is the available
  count. The buffer keeps its length, its samples from the returned count of frames on
  are the caller's own, and the samples before are copies of ring cells.
\<close>

theorem C4_underrun:
  assumes "mapped_at r fs p m" and "buffer_fits m" and "mapping_covers r m"
    and "unat n * unat (channels (header m)) \<le> length buf"
  shows "\<exists>k buf' fs'.
           Read r fs (Some buf) n = Some (k, Some buf', fs') \<and>
           unat k = min (unat n)
                      (min (unat (write_index (header m) - read_index (header m)))
                           (unat (capacity_frames (header m)))) \<and>
           (write_index (header m) = read_index (header m) \<longrightarrow> k = 0 \<and> buf' = buf \<and> fs' = fs) \<and>
           (min (unat (write_index (header m) - read_index (header m)))
                (unat (capacity_frames (header m))) < unat n \<longrightarrow>
              unat k = min (unat (write_index (header m) - read_index (header m)))
                           (unat (capacity_frames (header m)))) \<and>
           length buf' = length buf \<and>
           (\<forall>j. j < length buf \<and> unat k * unat (channels (header m)) \<le> j \<longrightarrow> buf' ! j = buf ! j) \<and>
           (\<forall>i c. i < unat k \<and> c < unat (channels (header m)) \<longrightarrow>
                  buf' ! (i * unat (channels (header m)) + c) =
                  cells m ! (unat ((read_index (header m) + of_nat i) mod
                                    capacity_frames (header m)) *
                             unat (channels (header m)) + c))"
proof -
  define k where "k = read_count (header m) n"
  from Read_frames [OF assms]
  obtain buf' fs' where
    run: "Read r fs (Some buf) n = Some (ucast k, Some buf', fs')"
    and len: "length buf' = length buf"
    and got: "\<forall>i c. i < unat k \<and> c < unat (channels (header m)) \<longrightarrow>
                  buf' ! (i * unat (channels (header m)) + c) =
                  cells m ! (unat ((read_index (header m) + of_nat i) mod
                                    capacity_frames (header m)) *
                             unat (channels (header m)) + c)"
    and kept: "\<forall>j. j < length buf \<and> unat k * unat (channels (header m)) \<le> j \<longrightarrow>
                  buf' ! j = buf ! j"
    unfolding k_def by blast
  have count: "unat (ucast k :: size_t) =
                 min (unat n)
                      (min (unat (write_index (header m) - read_index (header m)))
                           (unat (capacity_frames (header m))))"
    by (simp add: k_def unat_ucast_u32 unat_read_count)
  have empty: "(ucast k :: size_t) = 0 \<and> buf' = buf \<and> fs' = fs"
    if "write_index (header m) = read_index (header m)"
  proof -
    from that have "unat (write_index (header m) - read_index (header m)) = 0"
      by simp
    then have "unat (read_count (header m) n) = 0"
      by (simp add: unat_read_count)
    then have "read_count (header m) n = 0"
      by (simp add: word_unat_eq_iff)
    then have "Read r fs (Some buf) n = Some (0, Some buf, fs)"
      by (simp add: Read_unfold [OF assms(1)])
    with run show ?thesis
      by simp
  qed
  show ?thesis
  proof (intro exI conjI)
    show "Read r fs (Some buf) n = Some (ucast k, Some buf', fs')"
      by (fact run)
    show "unat (ucast k :: size_t) =
            min (unat n)
                (min (unat (write_index (header m) - read_index (header m)))
                     (unat (capacity_frames (header m))))"
      by (fact count)
    show "write_index (header m) = read_index (header m) \<longrightarrow>
            (ucast k :: size_t) = 0 \<and> buf' = buf \<and> fs' = fs"
      using empty by blast
    show "min (unat (write_index (header m) - read_index (header m)))
              (unat (capacity_frames (header m))) < unat n \<longrightarrow>
            unat (ucast k :: size_t) =
              min (unat (write_index (header m) - read_index (header m)))
                  (unat (capacity_frames (header m)))"
      using count by simp
    show "length buf' = length buf"
      by (fact len)
    show "\<forall>j. j < length buf \<and> unat (ucast k :: size_t) * unat (channels (header m)) \<le> j \<longrightarrow>
               buf' ! j = buf ! j"
      using kept by (simp add: unat_ucast_u32)
    show "\<forall>i c. i < unat (ucast k :: size_t) \<and> c < unat (channels (header m)) \<longrightarrow>
                  buf' ! (i * unat (channels (header m)) + c) =
                  cells m ! (unat ((read_index (header m) + of_nat i) mod
                                    capacity_frames (header m)) *
                             unat (channels (header m)) + c)"
      using got by (simp add: unat_ucast_u32)
  qed
qed

theorem C4_underrun_witness:
  "mapped_at ring_ex [''/tmp/r.ring'' \<mapsto> region_ex] ''/tmp/r.ring'' region_ex \<and>
   buffer_fits region_ex \<and> mapping_covers ring_ex region_ex \<and>
   unat (3 :: size_t) * unat (channels (header region_ex)) \<le> length [9, 9, 9, 9, 9, 9 :: sample] \<and>
   (\<exists>k buf' fs'.
      Read ring_ex [''/tmp/r.ring'' \<mapsto> region_ex] (Some [9, 9, 9, 9, 9, 9]) 3 =
        Some (k, Some buf', fs') \<and>
      unat k = 1 \<and> length buf' = 6 \<and>
      buf' ! 2 = 9 \<and> buf' ! 3 = 9 \<and> buf' ! 4 = 9 \<and> buf' ! 5 = 9)"
proof -
  have m1: "mapped_at ring_ex [''/tmp/r.ring'' \<mapsto> region_ex] ''/tmp/r.ring'' region_ex"
    by (simp add: mapped_at_def ring_ex_def)
  have f1: "buffer_fits region_ex"
    by (simp add: buffer_fits_def region_ex_def)
  have c1: "mapping_covers ring_ex region_ex"
    by (simp add: covers_defs region_ex_def)
  have h1: "header region_ex = \<lparr>magic = kMagic, version = kVersion, channels = 2,
              capacity_frames = 3, write_index = 5, read_index = 4\<rparr>"
    by (simp add: region_ex_def)
  have b1: "unat (3 :: size_t) * unat (channels (header region_ex)) \<le>
              length [9, 9, 9, 9, 9, 9 :: sample]"
    by (simp add: h1)
  from C4_underrun [OF m1 f1 c1 b1]
  obtain k buf' fs' where
    "Read ring_ex [''/tmp/r.ring'' \<mapsto> region_ex] (Some [9, 9, 9, 9, 9, 9]) 3 =
        Some (k, Some buf', fs')"
    and "unat k = 1" and "length buf' = 6"
    and "\<forall>j. j < 6 \<and> 2 \<le> j \<longrightarrow> buf' ! j = [9, 9, 9, 9, 9, 9] ! j"
    by (auto simp: h1)
  then have "Read ring_ex [''/tmp/r.ring'' \<mapsto> region_ex] (Some [9, 9, 9, 9, 9, 9]) 3 =
        Some (k, Some buf', fs') \<and>
      unat k = 1 \<and> length buf' = 6 \<and>
      buf' ! 2 = 9 \<and> buf' ! 3 = 9 \<and> buf' ! 4 = 9 \<and> buf' ! 5 = 9"
    by simp
  with m1 f1 c1 b1 show ?thesis
    by blast
qed

section \<open>Frame addressing\<close>

text \<open>
  Claim C8. On an open ring whose frame buffer holds \<open>capacity_frames * channels\<close>
  samples, all of them within the \<^verbatim>\<open>mapping_size_\<close> bytes the instance has mapped,
  \<^verbatim>\<open>Write\<close> and \<^verbatim>\<open>Read\<close> with a caller's buffer of at least \<open>frame_count\<close> frames
  return a result: no \<^verbatim>\<open>memcpy\<close> leaves the frame buffer or the mapping (the model has no
  result where one does). The frame at index \<open>write_index + i\<close> is stored in the slot
  \<open>(write_index + i) mod capacity_frames\<close>, channel by channel, unless a later frame of
  the same call is stored in that slot; slots that no frame of the call is stored in
  keep their samples. \<^verbatim>\<open>Read\<close> copies frame \<open>i\<close> from the slot
  \<open>(read_index + i) mod capacity_frames\<close> and leaves the frame buffer as it is. Every
  sample position \<open>slot * channels + c\<close> with \<open>c < channels\<close> lies inside the frame
  buffer, whatever the index.
\<close>

theorem C8_frame_addressing:
  assumes "mapped_at r fs p m" and "buffer_fits m" and "mapping_covers r m"
  shows "(unat n * unat (channels (header m)) \<le> length src \<longrightarrow>
           (\<exists>k fs' m'.
              Write r fs (Some src) n = Some (k, fs') \<and> mapped_at r fs' p m' \<and>
              length (cells m') = unat (capacity_frames (header m)) * unat (channels (header m)) \<and>
              (\<forall>i c. i < unat k \<and> c < unat (channels (header m)) \<and>
                 (\<forall>j. i < j \<and> j < unat k \<longrightarrow>
                    unat ((write_index (header m) + of_nat j) mod capacity_frames (header m)) \<noteq>
                    unat ((write_index (header m) + of_nat i) mod capacity_frames (header m))) \<longrightarrow>
                 cells m' ! (unat ((write_index (header m) + of_nat i) mod
                                    capacity_frames (header m)) *
                             unat (channels (header m)) + c) =
                 src ! (i * unat (channels (header m)) + c)) \<and>
              (\<forall>s c. s < unat (capacity_frames (header m)) \<and> c < unat (channels (header m)) \<and>
                 (\<forall>j. j < unat k \<longrightarrow>
                    unat ((write_index (header m) + of_nat j) mod capacity_frames (header m)) \<noteq> s) \<longrightarrow>
                 cells m' ! (s * unat (channels (header m)) + c) =
                 cells m ! (s * unat (channels (header m)) + c)))) \<and>
         (unat n * unat (channels (header m)) \<le> length buf \<longrightarrow>
           (\<exists>k buf' fs' m'.
              Read r fs (Some buf) n = Some (k, Some buf', fs') \<and> mapped_at r fs' p m' \<and>
              cells m' = cells m \<and>
              (\<forall>i c. i < unat k \<and> c < unat (channels (header m)) \<longrightarrow>
                 buf' ! (i * unat (channels (header m)) + c) =
                 cells m ! (unat ((read_index (header m) + of_nat i) mod
                                   capacity_frames (header m)) *
                            unat (channels (header m)) + c)))) \<and>
         (\<forall>idx c. capacity_frames (header m) \<noteq> 0 \<and> c < unat (channels (header m)) \<longrightarrow>
            unat (idx mod capacity_frames (header m)) * unat (channels (header m)) + c
              < length (cells m))"
proof (intro conjI impI allI)
  assume "unat n * unat (channels (header m)) \<le> length src"
  from Write_frames [OF assms this]
  obtain fs' m' where
    run: "Write r fs (Some src) n = Some (ucast (write_count (header m) n), fs')"
    and m': "mapped_at r fs' p m'"
    and len: "length (cells m') = length (cells m)"
    and put: "\<forall>i c. i < unat (write_count (header m) n) \<and> c < unat (channels (header m)) \<and>
                  (\<forall>j. i < j \<and> j < unat (write_count (header m) n) \<longrightarrow>
                       unat ((write_index (header m) + of_nat j) mod capacity_frames (header m)) \<noteq>
                       unat ((write_index (header m) + of_nat i) mod capacity_frames (header m))) \<longrightarrow>
                  cells m' ! (unat ((write_index (header m) + of_nat i) mod
                                     capacity_frames (header m)) *
                              unat (channels (header m)) + c) =
                  src ! (i * unat (channels (header m)) + c)"
    and kept: "\<forall>s c. s < unat (capacity_frames (header m)) \<and> c < unat (channels (header m)) \<and>
                  (\<forall>j. j < unat (write_count (header m) n) \<longrightarrow>
                       unat ((write_index (header m) + of_nat j) mod capacity_frames (header m)) \<noteq> s) \<longrightarrow>
                  cells m' ! (s * unat (channels (header m)) + c) =
                  cells m ! (s * unat (channels (header m)) + c)"
    by blast
  have len': "length (cells m') = unat (capacity_frames (header m)) * unat (channels (header m))"
    using len assms(2) by (simp add: buffer_fits_def)
  show "\<exists>k fs' m'.
              Write r fs (Some src) n = Some (k, fs') \<and> mapped_at r fs' p m' \<and>
              length (cells m') = unat (capacity_frames (header m)) * unat (channels (header m)) \<and>
              (\<forall>i c. i < unat k \<and> c < unat (channels (header m)) \<and>
                 (\<forall>j. i < j \<and> j < unat k \<longrightarrow>
                    unat ((write_index (header m) + of_nat j) mod capacity_frames (header m)) \<noteq>
                    unat ((write_index (header m) + of_nat i) mod capacity_frames (header m))) \<longrightarrow>
                 cells m' ! (unat ((write_index (header m) + of_nat i) mod
                                    capacity_frames (header m)) *
                             unat (channels (header m)) + c) =
                 src ! (i * unat (channels (header m)) + c)) \<and>
              (\<forall>s c. s < unat (capacity_frames (header m)) \<and> c < unat (channels (header m)) \<and>
                 (\<forall>j. j < unat k \<longrightarrow>
                    unat ((write_index (header m) + of_nat j) mod capacity_frames (header m)) \<noteq> s) \<longrightarrow>
                 cells m' ! (s * unat (channels (header m)) + c) =
                 cells m ! (s * unat (channels (header m)) + c))"
    using run m' len' put kept
    by (intro exI [of _ "ucast (write_count (header m) n)"] exI [of _ fs'] exI [of _ m'])
       (simp add: unat_ucast_u32)
next
  assume "unat n * unat (channels (header m)) \<le> length buf"
  from Read_frames [OF assms this]
  obtain buf' fs' m' where
    run: "Read r fs (Some buf) n = Some (ucast (read_count (header m) n), Some buf', fs')"
    and m': "mapped_at r fs' p m'"
    and same: "cells m' = cells m"
    and got: "\<forall>i c. i < unat (read_count (header m) n) \<and> c < unat (channels (header m)) \<longrightarrow>
                  buf' ! (i * unat (channels (header m)) + c) =
                  cells m ! (unat ((read_index (header m) + of_nat i) mod
                                    capacity_frames (header m)) *
                             unat (channels (header m)) + c)"
    by blast
  show "\<exists>k buf' fs' m'.
              Read r fs (Some buf) n = Some (k, Some buf', fs') \<and> mapped_at r fs' p m' \<and>
              cells m' = cells m \<and>
              (\<forall>i c. i < unat k \<and> c < unat (channels (header m)) \<longrightarrow>
                 buf' ! (i * unat (channels (header m)) + c) =
                 cells m ! (unat ((read_index (header m) + of_nat i) mod
                                   capacity_frames (header m)) *
                            unat (channels (header m)) + c))"
    using run m' same got
    by (intro exI [of _ "ucast (read_count (header m) n)"] exI [of _ buf'] exI [of _ fs']
          exI [of _ m'])
       (simp add: unat_ucast_u32)
next
  fix idx :: u32 and c
  assume a: "capacity_frames (header m) \<noteq> 0 \<and> c < unat (channels (header m))"
  then have "unat (idx mod capacity_frames (header m)) < unat (capacity_frames (header m))"
    by (simp add: unat_slot)
  with a have "unat (idx mod capacity_frames (header m)) * unat (channels (header m)) + c
                 < unat (capacity_frames (header m)) * unat (channels (header m))"
    by (intro frame_cell_bound) simp_all
  with assms(2) show "unat (idx mod capacity_frames (header m)) * unat (channels (header m)) + c
                        < length (cells m)"
    by (simp add: buffer_fits_def)
qed

theorem C8_frame_addressing_witness:
  "mapped_at ring_ex [''/tmp/r.ring'' \<mapsto> region_ex] ''/tmp/r.ring'' region_ex \<and>
   buffer_fits region_ex \<and> mapping_covers ring_ex region_ex \<and>
   unat (2 :: size_t) * unat (channels (header region_ex)) \<le> length [1, 2, 3, 4 :: sample] \<and>
   (\<exists>k fs' m'.
      Write ring_ex [''/tmp/r.ring'' \<mapsto> region_ex] (Some [1, 2, 3, 4]) 2 = Some (k, fs') \<and>
      mapped_at ring_ex fs' ''/tmp/r.ring'' m' \<and> length (cells m') = 6) \<and>
   (\<exists>k buf' fs' m'.
      Read ring_ex [''/tmp/r.ring'' \<mapsto> region_ex] (Some [9, 9, 9, 9]) 2 = Some (k, Some buf', fs') \<and>
      mapped_at ring_ex fs' ''/tmp/r.ring'' m' \<and> cells m' = cells region_ex) \<and>
   unat ((4294967295 :: u32) mod capacity_frames (header region_ex)) *
     unat (channels (header region_ex)) + 1 < length (cells region_ex)"
proof -
  have m1: "mapped_at ring_ex [''/tmp/r.ring'' \<mapsto> region_ex] ''/tmp/r.ring'' region_ex"
    by (simp add: mapped_at_def ring_ex_def)
  have f1: "buffer_fits region_ex"
    by (simp add: buffer_fits_def region_ex_def)
  have c1: "mapping_covers ring_ex region_ex"
    by (simp add: covers_defs region_ex_def)
  have h1: "header region_ex = \<lparr>magic = kMagic, version = kVersion, channels = 2,
              capacity_frames = 3, write_index = 5, read_index = 4\<rparr>"
    by (simp add: region_ex_def)
  have b1: "unat (2 :: size_t) * unat (channels (header region_ex)) \<le> length [1, 2, 3, 4 :: sample]"
    by (simp add: h1)
  have b2: "unat (2 :: size_t) * unat (channels (header region_ex)) \<le> length [9, 9, 9, 9 :: sample]"
    by (simp add: h1)
  note all = C8_frame_addressing [OF m1 f1 c1, where n = 2 and src = "[1, 2, 3, 4]"
      and buf = "[9, 9, 9, 9]"]
  from all b1 have w: "\<exists>k fs' m'.
      Write ring_ex [''/tmp/r.ring'' \<mapsto> region_ex] (Some [1, 2, 3, 4]) 2 = Some (k, fs') \<and>
      mapped_at ring_ex fs' ''/tmp/r.ring'' m' \<and> length (cells m') = 6"
    by (simp add: h1) blast
  from all b2 have r: "\<exists>k buf' fs' m'.
      Read ring_ex [''/tmp/r.ring'' \<mapsto> region_ex] (Some [9, 9, 9, 9]) 2 = Some (k, Some buf', fs') \<and>
      mapped_at ring_ex fs' ''/tmp/r.ring'' m' \<and> cells m' = cells region_ex"
    by (simp add: h1) blast
  from all have "capacity_frames (header region_ex) \<noteq> 0 \<and> 1 < unat (channels (header region_ex)) \<longrightarrow>
      unat ((4294967295 :: u32) mod capacity_frames (header region_ex)) *
        unat (channels (header region_ex)) + 1 < length (cells region_ex)"
    by blast
  then have a: "unat ((4294967295 :: u32) mod capacity_frames (header region_ex)) *
     unat (channels (header region_ex)) + 1 < length (cells region_ex)"
    by (simp add: h1)
  from m1 f1 c1 b1 w r a show ?thesis
    by blast
qed

section \<open>The index invariant\<close>

lemma used_after_write:
  assumes "used_within_capacity h"
  shows "used_within_capacity (h\<lparr>write_index := write_index h + write_count h n\<rparr>)"
proof -
  define used where "used = write_index h - read_index h"
  define k where "k = write_count h n"
  have u: "unat used \<le> unat (capacity_frames h)"
    using assms by (simp add: used_within_capacity_def used_def word_le_nat_alt)
  have "unat k \<le> unat (capacity_frames h) - unat used"
    using u by (simp add: k_def unat_write_count used_def)
  with u have sum: "unat used + unat k \<le> unat (capacity_frames h)"
    by simp
  also have "\<dots> < 2 ^ LENGTH(32)"
    by (rule unsigned_less)
  finally have "unat (used + k) = unat used + unat k"
    by (simp only: unat_add_lem)
  with sum have le: "used + k \<le> capacity_frames h"
    by (simp add: word_le_nat_alt)
  have eq: "write_index h + k - read_index h = used + k"
    by (simp add: used_def)
  from le have "write_index h + k - read_index h \<le> capacity_frames h"
    by (simp only: eq)
  then show ?thesis
    by (simp add: used_within_capacity_def k_def)
qed

lemma used_after_read:
  assumes "used_within_capacity h"
  shows "used_within_capacity (h\<lparr>read_index := read_index h + read_count h n\<rparr>)"
proof -
  define used where "used = write_index h - read_index h"
  define k where "k = read_count h n"
  have u: "unat used \<le> unat (capacity_frames h)"
    using assms by (simp add: used_within_capacity_def used_def word_le_nat_alt)
  have "unat k \<le> unat used"
    by (simp add: k_def unat_read_count used_def)
  then have "k \<le> used"
    by (simp add: word_le_nat_alt)
  then have "unat (used - k) = unat used - unat k"
    by (rule unat_sub)
  with u have le: "used - k \<le> capacity_frames h"
    by (simp add: word_le_nat_alt)
  have eq: "write_index h - (read_index h + k) = used - k"
    by (simp add: used_def)
  from le have "write_index h - (read_index h + k) \<le> capacity_frames h"
    by (simp only: eq)
  then show ?thesis
    by (simp add: used_within_capacity_def k_def)
qed

lemma Write_step:
  assumes m: "mapped_at r fs p m" and run: "Write r fs frames n = Some (k, fs')"
  shows "\<exists>m'. mapped_at r fs' p m' \<and>
              (header m' = header m \<or>
               header m' = (header m)\<lparr>write_index :=
                              write_index (header m) + write_count (header m) n\<rparr>)"
proof (cases frames)
  case None
  with m run show ?thesis
    by (auto simp: Write_def mapped_at_def)
next
  case (Some src)
  show ?thesis
  proof (cases "write_count (header m) n = 0")
    case True
    with run Some have "fs' = fs"
      by (simp add: Write_unfold [OF m])
    with m show ?thesis
      by blast
  next
    case False
    with run Some obtain data' where
      "fs' = fs(p \<mapsto> m\<lparr>cells := data', header := (header m)\<lparr>write_index :=
                write_index (header m) + write_count (header m) n\<rparr>\<rparr>)"
      by (auto simp: Write_unfold [OF m] split: option.splits)
    with m show ?thesis
      by (auto simp: mapped_at_def)
  qed
qed

lemma Read_step:
  assumes m: "mapped_at r fs p m" and run: "Read r fs frames n = Some (k, frames', fs')"
  shows "\<exists>m'. mapped_at r fs' p m' \<and>
              (header m' = header m \<or>
               header m' = (header m)\<lparr>read_index :=
                              read_index (header m) + read_count (header m) n\<rparr>)"
proof (cases frames)
  case None
  with m run show ?thesis
    by (auto simp: Read_def mapped_at_def)
next
  case (Some buf)
  show ?thesis
  proof (cases "read_count (header m) n = 0")
    case True
    with run Some have "fs' = fs"
      by (simp add: Read_unfold [OF m])
    with m show ?thesis
      by blast
  next
    case False
    with run Some have
      "fs' = fs(p \<mapsto> m\<lparr>header := (header m)\<lparr>read_index :=
                read_index (header m) + read_count (header m) n\<rparr>\<rparr>)"
      by (auto simp: Read_unfold [OF m] split: option.splits)
    with m show ?thesis
      by (auto simp: mapped_at_def)
  qed
qed

lemma run_calls_invariant:
  assumes "mapped_at r fs p m" and "used_within_capacity (header m)"
  shows "\<forall>fs' \<in> set (run_calls r fs calls).
           \<exists>m'. fs' p = Some m' \<and> used_within_capacity (header m')"
  using assms
proof (induction calls arbitrary: fs m)
  case Nil
  show ?case by simp
next
  case (Cons c calls)
  show ?case
  proof (cases c)
    case (WriteCall frames n)
    show ?thesis
    proof (cases "Write r fs frames n")
      case None
      with WriteCall show ?thesis by simp
    next
      case (Some res)
      obtain k fs1 where res: "res = (k, fs1)" by (cases res)
      from Write_step [OF Cons.prems(1) Some [unfolded res]]
      obtain m1 where m1: "mapped_at r fs1 p m1"
        and h1: "header m1 = header m \<or>
                 header m1 = (header m)\<lparr>write_index :=
                                write_index (header m) + write_count (header m) n\<rparr>"
        by blast
      from h1 Cons.prems(2) have inv1: "used_within_capacity (header m1)"
        by (auto simp: used_after_write)
      from m1 have "fs1 p = Some m1"
        by (simp add: mapped_at_def)
      with Cons.IH [OF m1 inv1] inv1 WriteCall Some res show ?thesis
        by simp
    qed
  next
    case (ReadCall frames n)
    show ?thesis
    proof (cases "Read r fs frames n")
      case None
      with ReadCall show ?thesis by simp
    next
      case (Some res)
      obtain k frames' fs1 where res: "res = (k, frames', fs1)" by (cases res)
      from Read_step [OF Cons.prems(1) Some [unfolded res]]
      obtain m1 where m1: "mapped_at r fs1 p m1"
        and h1: "header m1 = header m \<or>
                 header m1 = (header m)\<lparr>read_index :=
                                read_index (header m) + read_count (header m) n\<rparr>"
        by blast
      from h1 Cons.prems(2) have inv1: "used_within_capacity (header m1)"
        by (auto simp: used_after_read)
      from m1 have "fs1 p = Some m1"
        by (simp add: mapped_at_def)
      with Cons.IH [OF m1 inv1] inv1 ReadCall Some res show ?thesis
        by simp
    qed
  qed
qed

lemma run_calls_total:
  assumes "mapped_at r fs p m" and "buffer_fits m" and "mapping_covers r m"
    and "\<forall>c \<in> set calls. call_fits (channels (header m)) c"
  shows "length (run_calls r fs calls) = length calls"
  using assms
proof (induction calls arbitrary: fs m)
  case Nil
  show ?case by simp
next
  case (Cons c calls)
  have open_at: "this_header r = Some p"
    using Cons.prems(1) by (simp add: mapped_at_def)
  show ?case
  proof (cases c)
    case (WriteCall frames n)
    show ?thesis
    proof (cases frames)
      case None
      with Cons.IH [OF Cons.prems(1,2,3)] Cons.prems(4) WriteCall open_at show ?thesis
        by (simp add: Write_def)
    next
      case (Some src)
      with Cons.prems(4) WriteCall have "unat n * unat (channels (header m)) \<le> length src"
        by simp
      from Write_frames [OF Cons.prems(1,2,3) this]
      obtain fs1 m1 where
        run: "Write r fs (Some src) n = Some (ucast (write_count (header m) n), fs1)"
        and m1: "mapped_at r fs1 p m1"
        and h1: "header m1 = (header m)\<lparr>write_index :=
                   write_index (header m) + write_count (header m) n\<rparr>"
        and len: "length (cells m1) = length (cells m)"
        and covers1: "mapping_covers r m1"
        by blast
      have fits1: "buffer_fits m1"
        using Cons.prems(2) by (simp add: buffer_fits_def h1 len)
      have "\<forall>c \<in> set calls. call_fits (channels (header m1)) c"
        using Cons.prems(4) by (simp add: h1)
      from Cons.IH [OF m1 fits1 covers1 this] run WriteCall Some show ?thesis
        by simp
    qed
  next
    case (ReadCall frames n)
    show ?thesis
    proof (cases frames)
      case None
      with Cons.IH [OF Cons.prems(1,2,3)] Cons.prems(4) ReadCall open_at show ?thesis
        by (simp add: Read_def)
    next
      case (Some buf)
      with Cons.prems(4) ReadCall have "unat n * unat (channels (header m)) \<le> length buf"
        by simp
      from Read_frames [OF Cons.prems(1,2,3) this]
      obtain buf' fs1 m1 where
        run: "Read r fs (Some buf) n = Some (ucast (read_count (header m) n), Some buf', fs1)"
        and m1: "mapped_at r fs1 p m1"
        and h1: "header m1 = (header m)\<lparr>read_index :=
                   read_index (header m) + read_count (header m) n\<rparr>"
        and same: "cells m1 = cells m"
        and covers1: "mapping_covers r m1"
        by blast
      have fits1: "buffer_fits m1"
        using Cons.prems(2) by (simp add: buffer_fits_def h1 same)
      have "\<forall>c \<in> set calls. call_fits (channels (header m1)) c"
        using Cons.prems(4) by (simp add: h1)
      from Cons.IH [OF m1 fits1 covers1 this] run ReadCall Some show ?thesis
        by simp
    qed
  qed
qed

text \<open>
  Claim C2. From a header whose two indices are 0, after every call of any sequence of
  \<^verbatim>\<open>Write\<close> and \<^verbatim>\<open>Read\<close> calls the wrapping 32-bit difference
  \<open>write_index - read_index\<close> is at most \<open>capacity_frames\<close> (it is unsigned, so at least
  0). When the frame buffer fits, lies within the instance's own mapping and every call
  fits, every call of the sequence has a result.
\<close>

theorem C2_index_invariant:
  assumes "mapped_at r fs p m"
    and "write_index (header m) = 0" and "read_index (header m) = 0"
  shows "(\<forall>fs' \<in> set (run_calls r fs calls).
            \<exists>m'. fs' p = Some m' \<and>
                 unat (write_index (header m') - read_index (header m'))
                   \<le> unat (capacity_frames (header m'))) \<and>
         (buffer_fits m \<and> mapping_covers r m \<and>
          (\<forall>c \<in> set calls. call_fits (channels (header m)) c) \<longrightarrow>
            length (run_calls r fs calls) = length calls)"
proof (intro conjI impI)
  have "used_within_capacity (header m)"
    using assms(2,3) by (simp add: used_within_capacity_def)
  from run_calls_invariant [OF assms(1) this]
  show "\<forall>fs' \<in> set (run_calls r fs calls).
            \<exists>m'. fs' p = Some m' \<and>
                 unat (write_index (header m') - read_index (header m'))
                   \<le> unat (capacity_frames (header m'))"
    by (simp add: used_within_capacity_def word_le_nat_alt)
next
  assume a: "buffer_fits m \<and> mapping_covers r m \<and>
             (\<forall>c \<in> set calls. call_fits (channels (header m)) c)"
  show "length (run_calls r fs calls) = length calls"
    using assms(1) a [THEN conjunct1] a [THEN conjunct2, THEN conjunct1]
      a [THEN conjunct2, THEN conjunct2]
    by (rule run_calls_total)
qed

theorem C2_index_invariant_witness:
  "mapped_at ring_ex [''/tmp/r.ring'' \<mapsto> region_fresh_ex] ''/tmp/r.ring'' region_fresh_ex \<and>
   write_index (header region_fresh_ex) = 0 \<and> read_index (header region_fresh_ex) = 0 \<and>
   buffer_fits region_fresh_ex \<and> mapping_covers ring_ex region_fresh_ex \<and>
   call_fits (channels (header region_fresh_ex)) (calls_ex ! 0) \<and>
   call_fits (channels (header region_fresh_ex)) (calls_ex ! 1) \<and>
   call_fits (channels (header region_fresh_ex)) (calls_ex ! 2) \<and>
   call_fits (channels (header region_fresh_ex)) (calls_ex ! 3) \<and>
   length calls_ex = 4 \<and>
   length (run_calls ring_ex [''/tmp/r.ring'' \<mapsto> region_fresh_ex] calls_ex) = 4 \<and>
   (\<exists>m'. last (run_calls ring_ex [''/tmp/r.ring'' \<mapsto> region_fresh_ex] calls_ex) ''/tmp/r.ring''
           = Some m' \<and>
         unat (write_index (header m') - read_index (header m'))
           \<le> unat (capacity_frames (header m')))"
proof -
  have m1: "mapped_at ring_ex [''/tmp/r.ring'' \<mapsto> region_fresh_ex] ''/tmp/r.ring'' region_fresh_ex"
    by (simp add: mapped_at_def ring_ex_def)
  have w0: "write_index (header region_fresh_ex) = 0"
    and r0: "read_index (header region_fresh_ex) = 0"
    by (simp_all add: region_fresh_ex_def)
  have f1: "buffer_fits region_fresh_ex"
    by (simp add: buffer_fits_def region_fresh_ex_def)
  have v1: "mapping_covers ring_ex region_fresh_ex"
    by (simp add: covers_defs region_fresh_ex_def)
  have c1: "call_fits (channels (header region_fresh_ex)) (calls_ex ! 0) \<and>
            call_fits (channels (header region_fresh_ex)) (calls_ex ! 1) \<and>
            call_fits (channels (header region_fresh_ex)) (calls_ex ! 2) \<and>
            call_fits (channels (header region_fresh_ex)) (calls_ex ! 3)"
    by (simp add: calls_ex_def region_fresh_ex_def)
  have c2: "\<forall>c \<in> set calls_ex. call_fits (channels (header region_fresh_ex)) c"
    by (simp add: calls_ex_def region_fresh_ex_def)
  have l1: "length calls_ex = 4"
    by (simp add: calls_ex_def)
  note inv = C2_index_invariant [OF m1 w0 r0, of calls_ex]
  from inv f1 v1 c2 l1
  have l2: "length (run_calls ring_ex [''/tmp/r.ring'' \<mapsto> region_fresh_ex] calls_ex) = 4"
    by simp
  then have "run_calls ring_ex [''/tmp/r.ring'' \<mapsto> region_fresh_ex] calls_ex \<noteq> []"
    by auto
  then have "last (run_calls ring_ex [''/tmp/r.ring'' \<mapsto> region_fresh_ex] calls_ex)
               \<in> set (run_calls ring_ex [''/tmp/r.ring'' \<mapsto> region_fresh_ex] calls_ex)"
    by (rule last_in_set)
  with inv have "\<exists>m'. last (run_calls ring_ex [''/tmp/r.ring'' \<mapsto> region_fresh_ex] calls_ex)
                       ''/tmp/r.ring'' = Some m' \<and>
         unat (write_index (header m') - read_index (header m'))
           \<le> unat (capacity_frames (header m'))"
    by blast
  with m1 w0 r0 f1 v1 c1 l1 l2 show ?thesis
    by blast
qed

section \<open>What a successful Open leaves\<close>

lemma Close_fields:
  "this_mapping (Close r) = None" "this_header (Close r) = None"
  "this_mapping_size (Close r) = 0" "this_name (Close r) = []" "this_shm_fd (Close r) < 0"
  by (simp_all add: Close_def Let_def)

lemma Close_opened_fields:
  "(Close r)\<lparr>this_shm_fd := fd, this_mapping_size := sz, this_mapping := mp,
             this_header := hp, this_name := nm\<rparr> =
   \<lparr>this_shm_fd = fd, this_mapping = mp, this_mapping_size = sz, this_header = hp, this_name = nm\<rparr>"
  by (cases r) (simp add: Close_def Let_def)

lemma InitializeIfNeeded_mapped:
  assumes "this_header r = Some p" and "this_mapping r = Some p" and "fs p = Some f"
    and "length (cells f) = cell_count (this_mapping_size r)"
    and "sizeof_Header \<le> this_mapping_size r"
  shows "InitializeIfNeeded r fs create chs cap =
           Some (True,
                 if create \<or> \<not> header_matches (header f) chs cap
                 then fs(p \<mapsto> \<lparr>header = stamped chs cap,
                                 cells = replicate (cell_count (this_mapping_size r)) 0\<rparr>)
                 else fs)"
  using assms
  by (auto simp: InitializeIfNeeded_def memset_zero_def header_matches_def stamped_def
                 zero_Header_def Let_def)

lemma length_resize_cells [simp]: "length (resize_cells n xs) = n"
  by (simp add: resize_cells_def)

lemma resize_cells_same: "length xs = n \<Longrightarrow> resize_cells n xs = xs"
  by (simp add: resize_cells_def)

lemma sys_open_ok:
  assumes "sys_open k fs path create = (fd, fs1)" and "\<not> fd < 0"
  shows "fd = open_result k \<and> (create \<or> fs path \<noteq> None) \<and>
         fs1 = fs(path \<mapsto> (case fs path of None \<Rightarrow> empty_file | Some f \<Rightarrow> f))"
  using assms
  by (auto simp: sys_open_def split: if_splits option.splits)

lemma sys_ftruncate_ok:
  assumes "sys_ftruncate k fs1 path len = (rc, fs2)" and "rc = 0" and "fs1 path = Some f"
  shows "fs2 = fs1(path \<mapsto> f\<lparr>cells := resize_cells (cell_count len) (cells f)\<rparr>)"
  using assms
  by (auto simp: sys_ftruncate_def split: if_splits)

lemma Open_TrueD:
  assumes "Open k r0 fs name create chs cap = Some (True, r', fs')"
  shows "name \<noteq> [] \<and> chs \<noteq> 0 \<and> cap \<noteq> 0 \<and> (create \<or> fs (backing_file name) \<noteq> None) \<and>
         r' = opened k name chs cap \<and>
         fs' = fs(backing_file name \<mapsto>
                 (case fs (backing_file name) of
                    None \<Rightarrow> \<lparr>header = stamped chs cap,
                              cells = replicate (cell_count (MappingSize chs cap)) 0\<rparr>
                  | Some f \<Rightarrow>
                     if create \<or> \<not> header_matches (header f) chs cap
                     then \<lparr>header = stamped chs cap,
                           cells = replicate (cell_count (MappingSize chs cap)) 0\<rparr>
                     else f\<lparr>cells := resize_cells (cell_count (MappingSize chs cap)) (cells f)\<rparr>))"
proof -
  define path where "path = backing_file name"
  define n where "n = cell_count (MappingSize chs cap)"
  from assms have valid: "name \<noteq> [] \<and> chs \<noteq> 0 \<and> cap \<noteq> 0"
    by (auto simp: Open_def Let_def split: if_splits)
  obtain fd fs1 where so: "sys_open k fs path create = (fd, fs1)"
    by force
  from assms valid so have fd: "\<not> fd < 0"
    by (auto simp: Open_def Let_def path_def split: if_splits)
  obtain rc fs2 where st: "sys_ftruncate k fs1 path (MappingSize chs cap) = (rc, fs2)"
    by force
  from assms valid so fd have covers: "sizeof_Header \<le> MappingSize chs cap"
    by (auto simp: Open_def Let_def path_def split: if_splits)
  from assms valid so fd st have rc: "rc = 0"
    by (auto simp: Open_def Let_def path_def split: if_splits)
  define r4 where "r4 = (Close r0)\<lparr>this_shm_fd := fd, this_mapping_size := MappingSize chs cap,
                          this_mapping := Some path, this_header := Some path\<rparr>"
  from assms valid so fd st rc
  have init: "InitializeIfNeeded r4 fs2 create chs cap = Some (True, fs')"
    and r': "r' = r4\<lparr>this_name := path\<rparr>"
    by (auto simp: Open_def Let_def path_def r4_def split: if_splits option.splits)
  from sys_open_ok [OF so fd]
  have fd_eq: "fd = open_result k"
    and exists: "create \<or> fs path \<noteq> None"
    and fs1: "fs1 = fs(path \<mapsto> (case fs path of None \<Rightarrow> empty_file | Some f \<Rightarrow> f))"
    by simp_all
  define f0 where "f0 = (case fs path of None \<Rightarrow> empty_file | Some f \<Rightarrow> f)"
  have fs1_path: "fs1 path = Some f0"
    by (simp add: fs1 f0_def)
  from sys_ftruncate_ok [OF st rc fs1_path]
  have fs2: "fs2 = fs1(path \<mapsto> f0\<lparr>cells := resize_cells n (cells f0)\<rparr>)"
    by (simp add: n_def)
  have "InitializeIfNeeded r4 fs2 create chs cap =
           Some (True,
                 if create \<or> \<not> header_matches (header (f0\<lparr>cells := resize_cells n (cells f0)\<rparr>)) chs cap
                 then fs2(path \<mapsto> \<lparr>header = stamped chs cap,
                                 cells = replicate (cell_count (this_mapping_size r4)) 0\<rparr>)
                 else fs2)"
    by (rule InitializeIfNeeded_mapped) (simp_all add: r4_def fs2 n_def covers)
  with init have fs': "fs' = (if create \<or> \<not> header_matches (header f0) chs cap
                 then fs2(path \<mapsto> \<lparr>header = stamped chs cap, cells = replicate n 0\<rparr>)
                 else fs2)"
    by (simp add: r4_def n_def)
  have "r' = opened k name chs cap"
    by (simp add: r' r4_def opened_def fd_eq path_def Close_opened_fields)
  moreover have "fs' = fs(path \<mapsto>
                 (case fs path of
                    None \<Rightarrow> \<lparr>header = stamped chs cap, cells = replicate n 0\<rparr>
                  | Some f \<Rightarrow>
                     if create \<or> \<not> header_matches (header f) chs cap
                     then \<lparr>header = stamped chs cap, cells = replicate n 0\<rparr>
                     else f\<lparr>cells := resize_cells n (cells f)\<rparr>))"
  proof (cases "fs path")
    case None
    with exists have create by simp
    with None show ?thesis
      by (simp add: fs' fs2 fs1)
  next
    case (Some f)
    then show ?thesis
      by (simp add: fs' fs2 fs1 f0_def)
  qed
  ultimately show ?thesis
    using valid exists unfolding path_def n_def by simp
qed

section \<open>Reopening\<close>

text \<open>
  Claim C5. After a successful \<^verbatim>\<open>Open\<close>: if \<^verbatim>\<open>create\<close> is false and the backing file was
  there with a header whose magic, version, channels and capacity match, the header
  (both indices included) is as it was and the cells are those \<^verbatim>\<open>ftruncate\<close> leaves; when
  the file already had the size of the mapping, as a file left by an earlier \<^verbatim>\<open>Open\<close> with
  the same parameters has, nothing in the file system has changed. If \<^verbatim>\<open>create\<close> is true,
  or the stored header does not match in one of the four fields, the file is the
  stamped header with both indices 0 followed by zero cells only. No other file changes.
\<close>

theorem C5_reopen:
  assumes "Open k r0 fs name create chs cap = Some (True, r', fs')"
  shows "(\<not> create \<and> fs (backing_file name) = Some f \<and> header_matches (header f) chs cap \<longrightarrow>
            (\<exists>f'. fs' (backing_file name) = Some f' \<and> header f' = header f \<and>
                  cells f' = resize_cells (cell_count (MappingSize chs cap)) (cells f)) \<and>
            (length (cells f) = cell_count (MappingSize chs cap) \<longrightarrow> fs' = fs)) \<and>
         (create \<or> (\<exists>g. fs (backing_file name) = Some g \<and> \<not> header_matches (header g) chs cap) \<longrightarrow>
            fs' (backing_file name) =
              Some \<lparr>header = \<lparr>magic = kMagic, version = kVersion, channels = chs,
                               capacity_frames = cap, write_index = 0, read_index = 0\<rparr>,
                    cells = replicate (cell_count (MappingSize chs cap)) 0\<rparr>) \<and>
         (\<forall>q. q \<noteq> backing_file name \<longrightarrow> fs' q = fs q)"
proof -
  define n where "n = cell_count (MappingSize chs cap)"
  define zeroed where "zeroed = \<lparr>header = stamped chs cap, cells = replicate n 0\<rparr>"
  from Open_TrueD [OF assms]
  have exists: "create \<or> fs (backing_file name) \<noteq> None"
    and fs': "fs' = fs(backing_file name \<mapsto>
                 (case fs (backing_file name) of
                    None \<Rightarrow> zeroed
                  | Some f \<Rightarrow>
                     if create \<or> \<not> header_matches (header f) chs cap then zeroed
                     else f\<lparr>cells := resize_cells n (cells f)\<rparr>))"
    unfolding n_def zeroed_def by simp_all
  have attach: "(\<exists>f'. fs' (backing_file name) = Some f' \<and> header f' = header f \<and>
                  cells f' = resize_cells n (cells f)) \<and>
            (length (cells f) = n \<longrightarrow> fs' = fs)"
    if "\<not> create \<and> fs (backing_file name) = Some f \<and> header_matches (header f) chs cap"
  proof -
    from that have eq: "fs' = fs(backing_file name \<mapsto> f\<lparr>cells := resize_cells n (cells f)\<rparr>)"
      by (simp add: fs')
    have "fs' = fs" if "length (cells f) = n"
    proof -
      from that have "f\<lparr>cells := resize_cells n (cells f)\<rparr> = f"
        by (simp add: resize_cells_same)
      with eq \<open>\<not> create \<and> fs (backing_file name) = Some f \<and> header_matches (header f) chs cap\<close>
      show ?thesis
        by (auto simp: fun_upd_idem_iff)
    qed
    with eq show ?thesis
      by simp
  qed
  have reset: "fs' (backing_file name) = Some zeroed"
    if "create \<or> (\<exists>g. fs (backing_file name) = Some g \<and> \<not> header_matches (header g) chs cap)"
    using that exists by (auto simp: fs' split: option.splits)
  have others: "\<forall>q. q \<noteq> backing_file name \<longrightarrow> fs' q = fs q"
    by (simp add: fs')
  from attach reset others show ?thesis
    unfolding n_def zeroed_def stamped_def by blast
qed

theorem C5_reopen_witness:
  "Open kernel_ok unopened [''/tmp/r.ring'' \<mapsto> region_ex] ''r'' False 2 3 =
     Some (True, ring_ex, [''/tmp/r.ring'' \<mapsto> region_ex]) \<and>
   \<not> False \<and> [''/tmp/r.ring'' \<mapsto> region_ex] (backing_file ''r'') = Some region_ex \<and>
   header_matches (header region_ex) 2 3 \<and>
   length (cells region_ex) = cell_count (MappingSize 2 3) \<and>
   Open kernel_ok unopened [''/tmp/r.ring'' \<mapsto> region_ex] ''r'' False 2 4 =
     Some (True, ring_ex\<lparr>this_mapping_size := 56\<rparr>,
           [''/tmp/r.ring'' \<mapsto>
              \<lparr>header = \<lparr>magic = kMagic, version = kVersion, channels = 2, capacity_frames = 4,
                          write_index = 0, read_index = 0\<rparr>,
               cells = replicate 8 0\<rparr>]) \<and>
   \<not> header_matches (header region_ex) 2 4 \<and>
   cell_count (MappingSize 2 4) = 8"
proof -
  have p: "backing_file ''r'' = ''/tmp/r.ring''"
    by (simp add: backing_file_def)
  have look: "[''/tmp/r.ring'' \<mapsto> region_ex] (backing_file ''r'') = Some region_ex"
    by (simp add: p)
  have match: "header_matches (header region_ex) 2 3"
    by (simp add: header_matches_def region_ex_def)
  have differ: "\<not> header_matches (header region_ex) 2 4"
    by (simp add: header_matches_def region_ex_def)
  have len: "length (cells region_ex) = cell_count (MappingSize 2 3)"
    by (simp add: region_ex_def cell_count_def MappingSize_def sizeof_Header_def sizeof_float_def)
  have n8: "cell_count (MappingSize 2 4) = 8"
    by (simp add: cell_count_def MappingSize_def sizeof_Header_def sizeof_float_def)
  have attach: "Open kernel_ok unopened [''/tmp/r.ring'' \<mapsto> region_ex] ''r'' False 2 3 =
     Some (True, ring_ex, [''/tmp/r.ring'' \<mapsto> region_ex])"
    by (simp add: segment_defs example_defs)
  obtain r' fs' where other:
    "Open kernel_ok unopened [''/tmp/r.ring'' \<mapsto> region_ex] ''r'' False 2 4 = Some (True, r', fs')"
    and r': "r' = ring_ex\<lparr>this_mapping_size := 56\<rparr>"
    by (simp add: segment_defs example_defs)
  from C5_reopen [OF other, of region_ex] look differ
  have "fs' ''/tmp/r.ring'' =
          Some \<lparr>header = \<lparr>magic = kMagic, version = kVersion, channels = 2, capacity_frames = 4,
                          write_index = 0, read_index = 0\<rparr>,
                cells = replicate 8 0\<rparr>"
    and "\<forall>q. q \<noteq> ''/tmp/r.ring'' \<longrightarrow> fs' q = None"
    by (auto simp: p n8)
  then have "fs' = [''/tmp/r.ring'' \<mapsto>
              \<lparr>header = \<lparr>magic = kMagic, version = kVersion, channels = 2, capacity_frames = 4,
                          write_index = 0, read_index = 0\<rparr>,
               cells = replicate 8 0\<rparr>]"
    by (intro ext) simp
  with other r' have reset: "Open kernel_ok unopened [''/tmp/r.ring'' \<mapsto> region_ex] ''r'' False 2 4 =
     Some (True, ring_ex\<lparr>this_mapping_size := 56\<rparr>,
           [''/tmp/r.ring'' \<mapsto>
              \<lparr>header = \<lparr>magic = kMagic, version = kVersion, channels = 2, capacity_frames = 4,
                          write_index = 0, read_index = 0\<rparr>,
               cells = replicate 8 0\<rparr>])"
    by simp
  from C5_reopen [OF attach, of region_ex] attach look match len reset differ n8 show ?thesis
    by simp
qed

section \<open>Accessors\<close>

text \<open>
  Claim C10. After a successful \<^verbatim>\<open>Open\<close> the accessors \<^verbatim>\<open>channels()\<close> and
  \<^verbatim>\<open>capacity_frames()\<close> return the requested values, for every file system the call
  started from; on an instance that is not open both return 0.
\<close>

theorem C10_accessors:
  "(Open k r0 fs name create chs cap = Some (True, r', fs') \<longrightarrow>
      channels_of r' fs' = Some chs \<and> capacity_frames_of r' fs' = Some cap) \<and>
   (\<not> is_open r \<longrightarrow> channels_of r fs = Some 0 \<and> capacity_frames_of r fs = Some 0)"
proof (intro conjI impI)
  assume ok: "Open k r0 fs name create chs cap = Some (True, r', fs')"
  from Open_TrueD [OF ok]
  have r': "this_header r' = Some (backing_file name)"
    and exists: "create \<or> fs (backing_file name) \<noteq> None"
    and fs': "fs' (backing_file name) =
                 Some (case fs (backing_file name) of
                    None \<Rightarrow> \<lparr>header = stamped chs cap,
                              cells = replicate (cell_count (MappingSize chs cap)) 0\<rparr>
                  | Some f \<Rightarrow>
                     if create \<or> \<not> header_matches (header f) chs cap
                     then \<lparr>header = stamped chs cap,
                           cells = replicate (cell_count (MappingSize chs cap)) 0\<rparr>
                     else f\<lparr>cells := resize_cells (cell_count (MappingSize chs cap)) (cells f)\<rparr>)"
    by (simp_all add: opened_def)
  show "channels_of r' fs' = Some chs"
    using exists
    by (auto simp: channels_of_def r' fs' stamped_def header_matches_def split: option.splits)
  show "capacity_frames_of r' fs' = Some cap"
    using exists
    by (auto simp: capacity_frames_of_def r' fs' stamped_def header_matches_def split: option.splits)
next
  assume "\<not> is_open r"
  then show "channels_of r fs = Some 0" and "capacity_frames_of r fs = Some 0"
    by (simp_all add: is_open_def channels_of_def capacity_frames_of_def)
qed

theorem C10_accessors_witness:
  "Open kernel_ok unopened [''/tmp/r.ring'' \<mapsto> region_ex] ''r'' False 2 4 =
     Some (True, ring_ex\<lparr>this_mapping_size := 56\<rparr>,
           [''/tmp/r.ring'' \<mapsto>
              \<lparr>header = \<lparr>magic = kMagic, version = kVersion, channels = 2, capacity_frames = 4,
                          write_index = 0, read_index = 0\<rparr>,
               cells = replicate 8 0\<rparr>]) \<and>
   channels_of (ring_ex\<lparr>this_mapping_size := 56\<rparr>)
     [''/tmp/r.ring'' \<mapsto>
        \<lparr>header = \<lparr>magic = kMagic, version = kVersion, channels = 2, capacity_frames = 4,
                    write_index = 0, read_index = 0\<rparr>,
         cells = replicate 8 0\<rparr>] = Some 2 \<and>
   capacity_frames_of (ring_ex\<lparr>this_mapping_size := 56\<rparr>)
     [''/tmp/r.ring'' \<mapsto>
        \<lparr>header = \<lparr>magic = kMagic, version = kVersion, channels = 2, capacity_frames = 4,
                    write_index = 0, read_index = 0\<rparr>,
         cells = replicate 8 0\<rparr>] = Some 4 \<and>
   \<not> is_open unopened \<and>
   channels_of unopened [''/tmp/r.ring'' \<mapsto> region_ex] = Some 0 \<and>
   capacity_frames_of unopened [''/tmp/r.ring'' \<mapsto> region_ex] = Some 0"
proof -
  have reset: "Open kernel_ok unopened [''/tmp/r.ring'' \<mapsto> region_ex] ''r'' False 2 4 =
     Some (True, ring_ex\<lparr>this_mapping_size := 56\<rparr>,
           [''/tmp/r.ring'' \<mapsto>
              \<lparr>header = \<lparr>magic = kMagic, version = kVersion, channels = 2, capacity_frames = 4,
                          write_index = 0, read_index = 0\<rparr>,
               cells = replicate 8 0\<rparr>])"
    by (simp add: segment_defs example_defs)
  have closed: "\<not> is_open unopened"
    by (simp add: is_open_def unopened_def)
  from C10_accessors [where k = kernel_ok and ?r0.0 = unopened
      and fs = "[''/tmp/r.ring'' \<mapsto> region_ex]" and name = "''r''" and create = False
      and chs = 2 and cap = 4 and r = unopened] reset closed
  show ?thesis
    by simp
qed


section \<open>Invalid arguments\<close>

text \<open>
  Claim C7, as stated, at an instance that is open: \<^verbatim>\<open>Open\<close> with an empty name returns
  false and leaves the file system as it is, but the instance is not as it was. The call
  has closed it.
\<close>

theorem C7_open_instance_counterexample:
  "is_open ring_ex \<and>
   Open kernel_ok ring_ex [''/tmp/r.ring'' \<mapsto> region_ex] [] True 2 3 =
     Some (False, unopened, [''/tmp/r.ring'' \<mapsto> region_ex]) \<and>
   unopened \<noteq> ring_ex \<and> \<not> is_open unopened"
  by (simp add: is_open_def ring_ex_def unopened_def Open_def Close_def)


text \<open>
  Claim C7, amended. \<^verbatim>\<open>Open\<close> with an empty name, zero channels or zero capacity returns
  false, leaves the file system as it is and leaves the instance as \<^verbatim>\<open>Close\<close> leaves it:
  not open, no mapping, no descriptor. An instance that was never opened is unchanged.
\<close>

theorem C7_invalid_arguments:
  assumes "name = [] \<or> chs = 0 \<or> cap = 0"
  shows "Open k r fs name create chs cap = Some (False, Close r, fs) \<and>
         \<not> is_open (Close r) \<and>
         this_mapping (Close r) = None \<and> this_shm_fd (Close r) < 0 \<and>
         Open k unopened fs name create chs cap = Some (False, unopened, fs)"
proof -
  have "Close unopened = unopened"
    by (simp add: Close_def unopened_def)
  with assms show ?thesis
    by (simp add: Open_def Let_def is_open_def Close_fields)
qed

theorem C7_invalid_arguments_witness:
  "([] :: string) = [] \<and>
   Open kernel_ok ring_ex [''/tmp/r.ring'' \<mapsto> region_ex] [] True 2 3 =
     Some (False, Close ring_ex, [''/tmp/r.ring'' \<mapsto> region_ex]) \<and>
   \<not> is_open (Close ring_ex) \<and>
   (0 :: u32) = 0 \<and>
   Open kernel_ok unopened Map.empty ''r'' True 0 3 = Some (False, unopened, Map.empty) \<and>
   Open kernel_ok unopened Map.empty ''r'' True 2 0 = Some (False, unopened, Map.empty)"
  using C7_invalid_arguments [where name = "[]" and chs = 2 and cap = 3 and k = kernel_ok
      and r = ring_ex and fs = "[''/tmp/r.ring'' \<mapsto> region_ex]" and create = True]
    C7_invalid_arguments [where name = "''r''" and chs = 0 and cap = 3 and k = kernel_ok
      and r = unopened and fs = Map.empty and create = True]
    C7_invalid_arguments [where name = "''r''" and chs = 2 and cap = 0 and k = kernel_ok
      and r = unopened and fs = Map.empty and create = True]
  by (simp add: Close_def unopened_def)

section \<open>Round trip\<close>

text \<open>
  On an empty ring whose frame buffer fits and lies within the instance's own mapping,
  a \<^verbatim>\<open>Write\<close> of at most \<open>capacity_frames\<close>
  frames followed by a \<^verbatim>\<open>Read\<close> of as many returns the written samples in order, when
  the frame indices of the call do not pass \<open>2 ^ 32\<close> or the capacity divides \<open>2 ^ 32\<close>:
  then the slots \<open>(write_index + i) mod capacity_frames\<close> of the call are distinct.
\<close>

lemma slot_nat:
  fixes w cap :: u32
  assumes "unat w + i < 2 ^ 32 \<or> unat cap dvd 2 ^ 32"
  shows "unat ((w + of_nat i) mod cap) = (unat w + i) mod unat cap"
proof -
  have "unat (w + of_nat i :: u32) = (unat w + i mod 2 ^ 32) mod 2 ^ 32"
    by (simp add: unat_word_ariths unat_of_nat)
  also have "\<dots> = (unat w + i) mod 2 ^ 32"
    by (simp add: mod_add_right_eq)
  finally have sum: "unat (w + of_nat i :: u32) = (unat w + i) mod 2 ^ 32" .
  from assms show ?thesis
  proof
    assume "unat w + i < 2 ^ 32"
    then show ?thesis
      by (simp add: unat_mod sum)
  next
    assume "unat cap dvd 2 ^ 32"
    then have "(unat w + i) mod 2 ^ 32 mod unat cap = (unat w + i) mod unat cap"
      by (rule mod_mod_cancel)
    then show ?thesis
      by (simp add: unat_mod sum)
  qed
qed

lemma slots_distinct:
  fixes a i j k :: nat
  assumes "i < j" and "j < n" and "n \<le> k"
  shows "(a + j) mod k \<noteq> (a + i) mod k"
proof
  assume "(a + j) mod k = (a + i) mod k"
  then have "k dvd (a + j) - (a + i)"
    by (simp add: mod_eq_dvd_iff_nat assms(1) less_imp_le)
  then have "k dvd j - i"
    by simp
  moreover have "0 < j - i" and "j - i < k"
    using assms by simp_all
  ultimately show False
    by (simp add: nat_dvd_not_less)
qed

lemma frames_eqI:
  fixes xs ys :: "'a list"
  assumes "n * c \<le> length xs" and "n * c \<le> length ys"
    and "\<And>i d. i < n \<Longrightarrow> d < c \<Longrightarrow> xs ! (i * c + d) = ys ! (i * c + d)"
  shows "take (n * c) xs = take (n * c) ys"
proof (rule nth_equalityI)
  show "length (take (n * c) xs) = length (take (n * c) ys)"
    using assms(1,2) by simp
next
  fix j
  assume "j < length (take (n * c) xs)"
  then have j: "j < n * c"
    by simp
  then have c: "0 < c"
    by (cases c) simp_all
  have "j div c < n"
    using j c by (simp add: less_mult_imp_div_less)
  moreover have "j mod c < c"
    using c by simp
  ultimately have "xs ! (j div c * c + j mod c) = ys ! (j div c * c + j mod c)"
    by (rule assms(3))
  then show "take (n * c) xs ! j = take (n * c) ys ! j"
    using j by simp
qed

lemma Write_Read_roundtrip:
  assumes m: "mapped_at r fs p m" and fits: "buffer_fits m"
    and covers: "mapping_covers r m"
    and empty: "write_index (header m) = read_index (header m)"
    and n: "unat n \<le> unat (capacity_frames (header m))"
    and src: "unat n * unat (channels (header m)) \<le> length src"
    and buf: "unat n * unat (channels (header m)) \<le> length buf"
    and slots: "unat (write_index (header m)) + unat n \<le> 2 ^ 32 \<or>
                unat (capacity_frames (header m)) dvd 2 ^ 32"
  shows "\<exists>fs1 buf' fs2.
           Write r fs (Some src) n = Some (n, fs1) \<and>
           Read r fs1 (Some buf) n = Some (n, Some buf', fs2) \<and>
           take (unat n * unat (channels (header m))) buf' =
           take (unat n * unat (channels (header m))) src"
proof -
  define h where "h = header m"
  define C where "C = unat (channels h)"
  define K where "K = unat (capacity_frames h)"
  define w where "w = write_index h"
  have slot: "unat ((w + of_nat i) mod capacity_frames h) = (unat w + i) mod K" if "i < unat n" for i
  proof (rule slot_nat [of w i "capacity_frames h", folded K_def])
    from slots that show "unat w + i < 2 ^ 32 \<or> K dvd 2 ^ 32"
      unfolding h_def w_def K_def by auto
  qed
  have wc: "unat (write_count h n) = unat n"
    using n empty by (simp add: unat_write_count h_def)
  then have ret_w: "(ucast (write_count h n) :: size_t) = n"
    by (simp add: word_unat_eq_iff unat_ucast_u32)
  from Write_frames [OF m fits covers src]
  obtain fs1 m1 where
    run_w: "Write r fs (Some src) n = Some (ucast (write_count h n), fs1)"
    and m1: "mapped_at r fs1 p m1"
    and h1: "header m1 = h\<lparr>write_index := w + write_count h n\<rparr>"
    and len1: "length (cells m1) = length (cells m)"
    and covers1: "mapping_covers r m1"
    and put: "\<And>i c. i < unat (write_count h n) \<Longrightarrow> c < C \<Longrightarrow>
                  (\<forall>j. i < j \<and> j < unat (write_count h n) \<longrightarrow>
                       unat ((w + of_nat j) mod capacity_frames h) \<noteq>
                       unat ((w + of_nat i) mod capacity_frames h)) \<Longrightarrow>
                  cells m1 ! (unat ((w + of_nat i) mod capacity_frames h) * C + c) =
                  src ! (i * C + c)"
    unfolding h_def C_def w_def by blast
  have stored: "cells m1 ! ((unat w + i) mod K * C + c) = src ! (i * C + c)"
    if i: "i < unat n" and c: "c < C" for i c
  proof -
    have "\<forall>j. i < j \<and> j < unat (write_count h n) \<longrightarrow>
               unat ((w + of_nat j) mod capacity_frames h) \<noteq>
               unat ((w + of_nat i) mod capacity_frames h)"
    proof (intro allI impI)
      fix j
      assume j: "i < j \<and> j < unat (write_count h n)"
      then have "i < j" and "j < unat n"
        by (simp_all add: wc)
      moreover have "unat n \<le> K"
        using n by (simp add: K_def h_def)
      ultimately have "(unat w + j) mod K \<noteq> (unat w + i) mod K"
        by (rule slots_distinct)
      then show "unat ((w + of_nat j) mod capacity_frames h) \<noteq>
                 unat ((w + of_nat i) mod capacity_frames h)"
        using \<open>j < unat n\<close> i by (simp add: slot)
    qed
    with put [of i c] i c show ?thesis
      by (simp add: wc slot)
  qed
  have fits1: "buffer_fits m1"
    using fits by (simp add: buffer_fits_def h1 len1 h_def)
  have ch1: "channels (header m1) = channels h" and cap1: "capacity_frames (header m1) = capacity_frames h"
    and r1: "read_index (header m1) = w"
    using empty by (simp_all add: h1 w_def h_def)
  have used1: "write_index (header m1) - read_index (header m1) = write_count h n"
    using empty by (simp add: h1 w_def h_def)
  have "unat n \<le> unat (capacity_frames h)"
    using n by (simp add: h_def)
  then have rc: "unat (read_count (header m1) n) = unat n"
    by (simp add: unat_read_count used1 cap1 wc)
  then have ret_r: "(ucast (read_count (header m1) n) :: size_t) = n"
    by (simp add: word_unat_eq_iff unat_ucast_u32)
  have buf1: "unat n * unat (channels (header m1)) \<le> length buf"
    using buf by (simp add: ch1 h_def)
  from Read_frames [OF m1 fits1 covers1 buf1]
  obtain buf' fs2 where
    run_r: "Read r fs1 (Some buf) n = Some (ucast (read_count (header m1) n), Some buf', fs2)"
    and len: "length buf' = length buf"
    and got: "\<And>i c. i < unat (read_count (header m1) n) \<Longrightarrow> c < C \<Longrightarrow>
                  buf' ! (i * C + c) =
                  cells m1 ! (unat ((w + of_nat i) mod capacity_frames h) * C + c)"
    unfolding ch1 cap1 r1 C_def by blast
  have same: "buf' ! (i * C + c) = src ! (i * C + c)" if "i < unat n" and "c < C" for i c
    using got [of i c] that by (simp add: rc slot stored)
  have "take (unat n * C) buf' = take (unat n * C) src"
  proof (rule frames_eqI)
    show "unat n * C \<le> length buf'"
      using buf len by (simp add: C_def h_def)
    show "unat n * C \<le> length src"
      using src by (simp add: C_def h_def)
  qed (rule same)
  with run_w run_r ret_w ret_r show ?thesis
    unfolding C_def h_def by auto
qed


section \<open>Indices that pass the 32-bit boundary\<close>

text \<open>
  Claim C6, at a capacity that does not divide \<open>2 ^ 32\<close>: a ring of two channels and
  three frames, empty, both indices \<^verbatim>\<open>UINT32_MAX\<close>. \<^verbatim>\<open>Write\<close> of the two frames \<open>(1, 2)\<close>
  and \<open>(3, 4)\<close> returns 2 and the used count is 2, as it should be; but the frames have
  the indices \<open>2 ^ 32 - 1\<close> and \<open>0\<close> and both have slot \<open>0\<close>, so the second overwrites the
  first, and the \<^verbatim>\<open>Read\<close> of two frames that follows returns \<open>(3, 4)\<close> twice.
\<close>

theorem C6_wrap_collision:
  "mapped_at ring_ex [''/tmp/r.ring'' \<mapsto> region_wrap_ex] ''/tmp/r.ring'' region_wrap_ex \<and>
   buffer_fits region_wrap_ex \<and> mapping_covers ring_ex region_wrap_ex \<and>
   Write ring_ex [''/tmp/r.ring'' \<mapsto> region_wrap_ex] (Some [1, 2, 3, 4]) 2 =
     Some (2, [''/tmp/r.ring'' \<mapsto>
                 \<lparr>header = \<lparr>magic = kMagic, version = kVersion, channels = 2,
                             capacity_frames = 3, write_index = 1, read_index = 0xFFFFFFFF\<rparr>,
                  cells = [3, 4, 0, 0, 0, 0]\<rparr>]) \<and>
   Read ring_ex
     [''/tmp/r.ring'' \<mapsto>
        \<lparr>header = \<lparr>magic = kMagic, version = kVersion, channels = 2,
                    capacity_frames = 3, write_index = 1, read_index = 0xFFFFFFFF\<rparr>,
         cells = [3, 4, 0, 0, 0, 0]\<rparr>] (Some [9, 9, 9, 9]) 2 =
     Some (2, Some [3, 4, 3, 4],
           [''/tmp/r.ring'' \<mapsto>
              \<lparr>header = \<lparr>magic = kMagic, version = kVersion, channels = 2,
                          capacity_frames = 3, write_index = 1, read_index = 1\<rparr>,
               cells = [3, 4, 0, 0, 0, 0]\<rparr>])"
proof -
  have wrapped: "(4294967297 :: u32) = 1"
    by simp
  show ?thesis
    by (simp add: mapped_at_def buffer_fits_def covers_defs region_wrap_ex_def transport_defs
          wrapped)
qed


section \<open>Round trip after Open\<close>

text \<open>
  When \<open>24 + 4 * channels * capacity_frames\<close> is below \<open>2 ^ 64\<close>, \<^verbatim>\<open>MappingSize\<close> does
  not wrap and the file a successful \<^verbatim>\<open>Open\<close> maps holds \<open>capacity_frames * channels\<close>
  cells. After a successful \<^verbatim>\<open>Open\<close> with \<^verbatim>\<open>create\<close> true, a \<^verbatim>\<open>Read\<close> then returns 0, and a
  \<^verbatim>\<open>Write\<close> of \<open>n\<close> frames, \<open>0 < n \<le> capacity_frames\<close>, followed by a \<^verbatim>\<open>Read\<close> of \<open>n\<close> frames
  returns the written samples.
\<close>

lemma unat_MappingSize:
  assumes "24 + 4 * unat chs * unat cap < 2 ^ 64"
  shows "unat (MappingSize chs cap) = 24 + 4 * unat chs * unat cap"
proof -
  have a: "unat (4 * ucast chs :: size_t) = 4 * unat chs"
  proof -
    have "unat (4 :: size_t) * unat (ucast chs :: size_t) < 2 ^ LENGTH(64)"
      using unat_u32_bound [of chs] by (simp add: unat_ucast_u32)
    then have "unat (4 * ucast chs :: size_t) = unat (4 :: size_t) * unat (ucast chs :: size_t)"
      by (simp only: unat_mult_lem)
    then show ?thesis
      by (simp add: unat_ucast_u32)
  qed
  have b: "unat (4 * ucast chs * ucast cap :: size_t) = 4 * unat chs * unat cap"
  proof -
    have "unat (4 * ucast chs :: size_t) * unat (ucast cap :: size_t) < 2 ^ LENGTH(64)"
      using assms by (simp add: a unat_ucast_u32)
    then have "unat (4 * ucast chs * ucast cap :: size_t) =
               unat (4 * ucast chs :: size_t) * unat (ucast cap :: size_t)"
      by (simp only: unat_mult_lem)
    then show ?thesis
      by (simp add: a unat_ucast_u32)
  qed
  have "unat (24 :: size_t) + unat (4 * ucast chs * ucast cap :: size_t) < 2 ^ LENGTH(64)"
    using assms by (simp add: b)
  then have "unat (24 + 4 * ucast chs * ucast cap :: size_t) =
             unat (24 :: size_t) + unat (4 * ucast chs * ucast cap :: size_t)"
    by (simp only: unat_add_lem)
  then show ?thesis
    by (simp add: MappingSize_def sizeof_Header_def sizeof_float_def b)
qed

lemma cell_count_MappingSize:
  assumes "24 + 4 * unat chs * unat cap < 2 ^ 64"
  shows "cell_count (MappingSize chs cap) = unat cap * unat chs"
  by (simp add: cell_count_def unat_MappingSize [OF assms] sizeof_Header_def sizeof_float_def)

lemma Open_create_roundtrip:
  assumes ok: "Open k r0 fs name True chs cap = Some (True, r', fs')"
    and size: "24 + 4 * unat chs * unat cap < 2 ^ 64"
    and n: "0 < unat n" "unat n \<le> unat cap"
    and src: "unat n * unat chs \<le> length src"
    and buf: "unat n * unat chs \<le> length buf"
  shows "Read r' fs' (Some buf0) n0 = Some (0, Some buf0, fs') \<and>
         (\<exists>fs1 buf' fs2.
            Write r' fs' (Some src) n = Some (n, fs1) \<and>
            Read r' fs1 (Some buf) n = Some (n, Some buf', fs2) \<and>
            take (unat n * unat chs) buf' = take (unat n * unat chs) src)"
proof -
  define m where "m = \<lparr>header = stamped chs cap,
                        cells = replicate (cell_count (MappingSize chs cap)) 0\<rparr>"
  from Open_TrueD [OF ok]
  have r': "r' = opened k name chs cap" and fs': "fs' (backing_file name) = Some m"
    by (auto simp: m_def split: option.splits)
  have m: "mapped_at r' fs' (backing_file name) m"
    by (simp add: mapped_at_def r' opened_def fs')
  have fits: "buffer_fits m"
    by (simp add: buffer_fits_def m_def stamped_def cell_count_MappingSize [OF size])
  have covers: "mapping_covers r' m"
    by (simp add: mapping_covers_def m_def r' opened_def)
  have "read_count (header m) n0 = 0"
    by (simp add: word_unat_eq_iff unat_read_count m_def stamped_def)
  then have first: "Read r' fs' (Some buf0) n0 = Some (0, Some buf0, fs')"
    by (simp add: Read_unfold [OF m])
  have "unat n < 2 ^ 32"
    using n(2) unat_u32_bound [of cap] by simp
  then have "unat (write_index (header m)) + unat n \<le> 2 ^ 32 \<or>
             unat (capacity_frames (header m)) dvd 2 ^ 32"
    by (simp add: m_def stamped_def)
  from Write_Read_roundtrip [OF m fits covers _ _ _ _ this, where src = src and buf = buf]
    n src buf
  have "\<exists>fs1 buf' fs2.
            Write r' fs' (Some src) n = Some (n, fs1) \<and>
            Read r' fs1 (Some buf) n = Some (n, Some buf', fs2) \<and>
            take (unat n * unat chs) buf' = take (unat n * unat chs) src"
    by (simp add: m_def stamped_def)
  with first show ?thesis
    by simp
qed

text \<open>
  Claim C1, at \<open>channels = capacity_frames = 2 ^ 31\<close>: \<^verbatim>\<open>MappingSize\<close> wraps to 24, the
  size of the header alone. \<^verbatim>\<open>Open\<close> with \<^verbatim>\<open>create\<close> true succeeds on a file of 24 bytes, and
  a \<^verbatim>\<open>Write\<close> of one frame from a buffer that holds one frame copies \<open>2 ^ 31\<close> samples to
  a frame buffer of no cells: an access outside the mapped file.
\<close>

theorem C1_oversized_ring:
  "Open kernel_ok unopened Map.empty ''r'' True 0x80000000 0x80000000 =
     Some (True,
           \<lparr>this_shm_fd = 3, this_mapping = Some ''/tmp/r.ring'', this_mapping_size = 24,
            this_header = Some ''/tmp/r.ring'', this_name = ''/tmp/r.ring''\<rparr>,
           [''/tmp/r.ring'' \<mapsto>
              \<lparr>header = \<lparr>magic = kMagic, version = kVersion, channels = 0x80000000,
                          capacity_frames = 0x80000000, write_index = 0, read_index = 0\<rparr>,
               cells = []\<rparr>]) \<and>
   unat (1 :: size_t) * unat (0x80000000 :: u32) \<le> length (replicate 2147483648 (0 :: sample)) \<and>
   Write \<lparr>this_shm_fd = 3, this_mapping = Some ''/tmp/r.ring'', this_mapping_size = 24,
          this_header = Some ''/tmp/r.ring'', this_name = ''/tmp/r.ring''\<rparr>
     [''/tmp/r.ring'' \<mapsto>
        \<lparr>header = \<lparr>magic = kMagic, version = kVersion, channels = 0x80000000,
                    capacity_frames = 0x80000000, write_index = 0, read_index = 0\<rparr>,
         cells = []\<rparr>]
     (Some (replicate 2147483648 0)) 1 = None"
proof (intro conjI)
  show "Open kernel_ok unopened Map.empty ''r'' True 0x80000000 0x80000000 =
     Some (True,
           \<lparr>this_shm_fd = 3, this_mapping = Some ''/tmp/r.ring'', this_mapping_size = 24,
            this_header = Some ''/tmp/r.ring'', this_name = ''/tmp/r.ring''\<rparr>,
           [''/tmp/r.ring'' \<mapsto>
              \<lparr>header = \<lparr>magic = kMagic, version = kVersion, channels = 0x80000000,
                          capacity_frames = 0x80000000, write_index = 0, read_index = 0\<rparr>,
               cells = []\<rparr>])"
    by (simp add: segment_defs)
  show "unat (1 :: size_t) * unat (0x80000000 :: u32) \<le> length (replicate 2147483648 (0 :: sample))"
    by simp
  show "Write \<lparr>this_shm_fd = 3, this_mapping = Some ''/tmp/r.ring'', this_mapping_size = 24,
          this_header = Some ''/tmp/r.ring'', this_name = ''/tmp/r.ring''\<rparr>
     [''/tmp/r.ring'' \<mapsto>
        \<lparr>header = \<lparr>magic = kMagic, version = kVersion, channels = 0x80000000,
                    capacity_frames = 0x80000000, write_index = 0, read_index = 0\<rparr>,
         cells = []\<rparr>]
     (Some (replicate 2147483648 0)) 1 = None"
    by (simp add: transport_defs)
qed

end
